theory Spec2Isabelle
  imports Complex_Main
begin

section \<open>The value graph\<close>

text \<open>
  The serializer walks a JavaScript value. Primitive values carry no identity; every
  object (array, Date, Error, RegExp, plain object) lives in a heap and is referred to
  by its address, so that two references to one instance and cyclic structures can be
  told. A number is represented by the text that \<^verbatim>\<open>String(value)\<close> yields for it, a
  Date by the text of \<^verbatim>\<open>toISOString()\<close>, an Error or RegExp by the text of
  \<^verbatim>\<open>toString()\<close>, a function by its \<^verbatim>\<open>name\<close>: these conversions are the
  platform's. A character stands for one code unit of a JavaScript string; the model
  has the code units 0 to 255.
  A plain object is the list of its own enumerable properties in the order of
  \<^verbatim>\<open>Object.keys\<close>.
\<close>

datatype prim = PNull | PUndefined | PBool bool | PNum string | PStr string

datatype jsval = VPrim prim | VFun string | VRef nat

datatype obj =
    OArray "jsval list"
  | ODate string
  | OError string
  | ORegExp string
  | OObject "(string \<times> jsval) list"

text \<open>
  The six symbols that stand for brackets and braces on the stack. They are created
  inside the call, so no input value can be one of them.
\<close>

datatype enclosure = LEFT_BRACKET | RIGHT_BRACKET | BRACKETS | LEFT_BRACE | RIGHT_BRACE | BRACES

datatype payload = Enc enclosure | Val jsval

text \<open>What \<^verbatim>\<open>render\<close> receives as its value: a symbol or a primitive.\<close>

datatype token = TEnc enclosure | TPrim prim

text \<open>
  A stack entry \<^verbatim>\<open>[key, value, index, depth]\<close>. The key is a string, \<^verbatim>\<open>null\<close> or
  \<^verbatim>\<open>undefined\<close>, the index a number or \<^verbatim>\<open>undefined\<close>; the code only tests them
  for truthiness, so \<^verbatim>\<open>null\<close> and \<^verbatim>\<open>undefined\<close> are both \<open>None\<close>.
\<close>

type_synonym frame = "string option \<times> payload \<times> nat option \<times> nat"

subsection \<open>Numbers of the limits\<close>

text \<open>
  \<^verbatim>\<open>maxDepth\<close> and \<^verbatim>\<open>maxSize\<close> are JavaScript numbers (default \<^verbatim>\<open>Infinity\<close>).
  Only the comparison \<open><\<close> is applied to them; any comparison with \<open>NaN\<close> is false.
\<close>

datatype jsnum = NaN | NegInf | Fin rat | PosInf

fun js_less :: "jsnum \<Rightarrow> jsnum \<Rightarrow> bool" where
  "js_less NaN _ = False"
| "js_less _ NaN = False"
| "js_less NegInf NegInf = False"
| "js_less NegInf _ = True"
| "js_less (Fin x) (Fin y) = (x < y)"
| "js_less (Fin x) PosInf = True"
| "js_less (Fin x) NegInf = False"
| "js_less PosInf _ = False"

fun js_le :: "jsnum \<Rightarrow> jsnum \<Rightarrow> bool" where
  "js_le NaN _ = False"
| "js_le _ NaN = False"
| "js_le NegInf _ = True"
| "js_le (Fin x) (Fin y) = (x \<le> y)"
| "js_le (Fin x) PosInf = True"
| "js_le (Fin x) NegInf = False"
| "js_le PosInf PosInf = True"
| "js_le PosInf _ = False"

text \<open>
  The running \<^verbatim>\<open>size\<close> starts as the number 0. \<^verbatim>\<open>size += n\<close> with a number keeps
  it a number; \<^verbatim>\<open>size += s\<close> with a string turns it into a string (the decimal text
  of the number followed by \<open>s\<close>), and from then on every \<open>+=\<close> appends text.
\<close>

datatype sizeval = SizeNum nat | SizeStr string

definition digit :: "nat \<Rightarrow> char" where
  "digit d = ''0123456789'' ! d"

fun dec :: "nat \<Rightarrow> string" where
  "dec n = (if n < 10 then [digit n] else dec (n div 10) @ [digit (n mod 10)])"

declare dec.simps [simp del]

fun plus_num :: "sizeval \<Rightarrow> nat \<Rightarrow> sizeval" where
  "plus_num (SizeNum n) k = SizeNum (n + k)"
| "plus_num (SizeStr t) k = SizeStr (t @ dec k)"

fun plus_str :: "sizeval \<Rightarrow> string \<Rightarrow> sizeval" where
  "plus_str (SizeNum n) u = SizeStr (dec n @ u)"
| "plus_str (SizeStr t) u = SizeStr (t @ u)"

section \<open>Configuration and state of one call\<close>

text \<open>
  The heap is not changed by the call. \<open>toNumber\<close> is the platform's conversion of a
  string to a number, which \<^verbatim>\<open>size > maxSize\<close> applies when \<^verbatim>\<open>size\<close> has become a
  string.
\<close>

record config =
  heap :: "obj list"
  maxDepth :: jsnum
  maxSize :: jsnum
  toNumber :: "string \<Rightarrow> jsnum"

text \<open>
  The variables of the closure. The head of \<open>stack\<close> is the top (the last element of
  the JavaScript array). \<open>seen\<close> is the WeakSet, as the set of addresses added.
  \<open>emitted\<close> is a history variable, not in the source: it logs the arguments of every
  call of \<^verbatim>\<open>render\<close>, newest first, so that the markers in the output can be counted.
\<close>

record state =
  stack :: "frame list"
  seen :: "nat set"
  size_js :: sizeval
  sizeLimitReached :: bool
  output_js :: string
  emitted :: "(string option \<times> token \<times> nat option) list"

definition heap_at :: "config \<Rightarrow> nat \<Rightarrow> obj option" where
  "heap_at cfg a = (if a < length (heap cfg) then Some (heap cfg ! a) else None)"

subsection \<open>The size accountant\<close>

definition exceeds :: "config \<Rightarrow> sizeval \<Rightarrow> bool" where
  "exceeds cfg sz =
     (case sz of
        SizeNum n \<Rightarrow> js_less (maxSize cfg) (Fin (of_nat n))
      | SizeStr t \<Rightarrow> js_less (maxSize cfg) (toNumber cfg t))"

definition set_size :: "config \<Rightarrow> sizeval \<Rightarrow> state \<Rightarrow> state" where
  "set_size cfg sz s =
     s\<lparr>size_js := sz,
       sizeLimitReached := (if exceeds cfg sz then True else sizeLimitReached s)\<rparr>"

definition measureSize :: "config \<Rightarrow> jsval \<Rightarrow> state \<Rightarrow> state" where
  "measureSize cfg v s =
     set_size cfg
       (case v of
          VPrim PNull \<Rightarrow> plus_num (size_js s) 4
        | VPrim (PBool b) \<Rightarrow> (if b then plus_num (size_js s) 4 else plus_num (size_js s) 5)
        | VPrim (PStr t) \<Rightarrow> plus_num (size_js s) (length t + 2)
        | VPrim (PNum t) \<Rightarrow> plus_num (size_js s) (length t)
        | VPrim PUndefined \<Rightarrow> size_js s
        | VRef a \<Rightarrow>
            (case heap_at cfg a of
               Some (ODate t) \<Rightarrow> plus_num (size_js s) 26
             | Some (OError t) \<Rightarrow> plus_str (size_js s) t
             | Some (ORegExp t) \<Rightarrow> plus_str (size_js s) t
             | _ \<Rightarrow> size_js s)
        | VFun name \<Rightarrow> plus_num (size_js s) (13 + length name))
       s"

definition addSize :: "config \<Rightarrow> nat \<Rightarrow> state \<Rightarrow> state" where
  "addSize cfg strLength s = set_size cfg (plus_num (size_js s) strLength) s"

subsection \<open>Rendering and escaping\<close>

definition getEnclosure :: "enclosure \<Rightarrow> string" where
  "getEnclosure e =
     (case e of
        LEFT_BRACKET \<Rightarrow> ''[''
      | RIGHT_BRACKET \<Rightarrow> '']''
      | BRACKETS \<Rightarrow> ''[]''
      | LEFT_BRACE \<Rightarrow> ''{''
      | RIGHT_BRACE \<Rightarrow> ''}''
      | BRACES \<Rightarrow> ''{}'')"

definition backslash :: char where
  "backslash = CHR 0x5C"

definition dquote :: char where
  "dquote = CHR 0x22"

text \<open>\<^verbatim>\<open>ESCAPE_REGEXP\<close>: the class \<^verbatim>\<open>[\x00-\x1f\x22\x5c]\<close>.\<close>

definition ESCAPE_REGEXP :: "char \<Rightarrow> bool" where
  "ESCAPE_REGEXP c = ((of_char c :: nat) \<le> 0x1f \<or> c = CHR 0x22 \<or> c = CHR 0x5C)"

definition hexDigit :: "nat \<Rightarrow> char" where
  "hexDigit d = ''0123456789abcdef'' ! d"

text \<open>\<^verbatim>\<open>n.toString(16)\<close> for a natural number.\<close>

fun toString16 :: "nat \<Rightarrow> string" where
  "toString16 n = (if n < 16 then [hexDigit n] else toString16 (n div 16) @ [hexDigit (n mod 16)])"

declare toString16.simps [simp del]

text \<open>\<^verbatim>\<open>t.slice(-4)\<close>: the last four characters, or all of \<open>t\<close> when it is shorter.\<close>

definition slice_last4 :: "string \<Rightarrow> string" where
  "slice_last4 t = drop (length t - 4) t"

text \<open>The replacement function given to \<^verbatim>\<open>replaceAll\<close>, with its table \<open>c\<close>.\<close>

definition escape_table :: "char \<Rightarrow> string option" where
  "escape_table a =
     (if a = CHR 0x08 then Some [backslash, CHR ''b'']
      else if a = CHR 0x09 then Some [backslash, CHR ''t'']
      else if a = CHR 0x0A then Some [backslash, CHR ''n'']
      else if a = CHR 0x0C then Some [backslash, CHR ''f'']
      else if a = CHR 0x0D then Some [backslash, CHR ''r'']
      else if a = CHR 0x22 then Some [backslash, CHR 0x22]
      else if a = CHR 0x5C then Some [backslash, backslash]
      else None)"

definition escape_replace :: "char \<Rightarrow> string" where
  "escape_replace a =
     (case escape_table a of
        Some c \<Rightarrow> c
      | None \<Rightarrow> [backslash, CHR ''u''] @ slice_last4 (''0000'' @ toString16 (of_char a)))"

definition escape :: "string \<Rightarrow> string" where
  "escape v =
     (if list_ex ESCAPE_REGEXP v
      then concat (map (\<lambda>a. if ESCAPE_REGEXP a then escape_replace a else [a]) v)
      else v)"

text \<open>\<^verbatim>\<open>str += value\<close> for a value that is neither a symbol nor a string.\<close>

fun prim_text :: "prim \<Rightarrow> string" where
  "prim_text PNull = ''null''"
| "prim_text PUndefined = ''undefined''"
| "prim_text (PBool b) = (if b then ''true'' else ''false'')"
| "prim_text (PNum t) = t"
| "prim_text (PStr t) = t"

definition truthy_index :: "nat option \<Rightarrow> bool" where
  "truthy_index index = (case index of None \<Rightarrow> False | Some i \<Rightarrow> i \<noteq> 0)"

text \<open>
  The local \<^verbatim>\<open>str\<close> of \<^verbatim>\<open>render\<close>: the comma and the key, then the text of the
  value.
\<close>

definition prefix_str :: "string option \<Rightarrow> nat option \<Rightarrow> string" where
  "prefix_str key index =
     (if truthy_index index then '','' else [])
     @ (case key of
          None \<Rightarrow> []
        | Some k \<Rightarrow> (if k \<noteq> [] then [dquote] @ k @ [dquote, CHR '':''] else []))"

definition token_str :: "token \<Rightarrow> string" where
  "token_str v =
     (case v of
        TEnc e \<Rightarrow> getEnclosure e
      | TPrim (PStr t) \<Rightarrow> [dquote] @ escape t @ [dquote]
      | TPrim p \<Rightarrow> prim_text p)"

definition render_str :: "string option \<Rightarrow> token \<Rightarrow> nat option \<Rightarrow> string" where
  "render_str key v index = prefix_str key index @ token_str v"

definition render :: "string option \<Rightarrow> token \<Rightarrow> nat option \<Rightarrow> state \<Rightarrow> state" where
  "render key v index s =
     s\<lparr>output_js := render_str key v index @ output_js s,
       emitted := (key, v, index) # emitted s\<rparr>"

subsection \<open>One step of the traversal\<close>

definition push :: "frame \<Rightarrow> state \<Rightarrow> state" where
  "push f s = s\<lparr>stack := f # stack s\<rparr>"

text \<open>The \<^verbatim>\<open>for\<close> loop over the elements of an array, from index \<open>i\<close> on.\<close>

fun pushElements :: "config \<Rightarrow> nat \<Rightarrow> nat \<Rightarrow> jsval list \<Rightarrow> state \<Rightarrow> state" where
  "pushElements cfg depth i [] s = s"
| "pushElements cfg depth i (x # xs) s =
     (let s1 = measureSize cfg x s;
          s2 = (if \<not> sizeLimitReached s1 then push (None, Val x, Some i, depth + 1) s1 else s1)
      in pushElements cfg depth (i + 1) xs s2)"

text \<open>The \<^verbatim>\<open>keys.forEach\<close> over the properties of an object, from index \<open>i\<close> on.\<close>

fun pushProperties :: "config \<Rightarrow> nat \<Rightarrow> nat \<Rightarrow> (string \<times> jsval) list \<Rightarrow> state \<Rightarrow> state" where
  "pushProperties cfg depth i [] s = s"
| "pushProperties cfg depth i ((k, x) # kvs) s =
     (let s1 = addSize cfg (length k + 3) s;
          s2 = (if \<not> sizeLimitReached s1 then measureSize cfg x s1 else s1);
          s3 = (if \<not> sizeLimitReached s2 then push (Some k, Val x, Some i, depth + 1) s2 else s2)
      in pushProperties cfg depth (i + 1) kvs s3)"

definition may_expand :: "config \<Rightarrow> nat \<Rightarrow> state \<Rightarrow> bool" where
  "may_expand cfg depth s = (\<not> sizeLimitReached s \<and> js_less (Fin (of_nat depth)) (maxDepth cfg))"

definition function_text :: "string \<Rightarrow> string" where
  "function_text name = ''[function '' @ (if name = [] then ''(anonymous)'' else name) @ '']''"

text \<open>
  The branch \<^verbatim>\<open>value !== null && typeof value === 'object'\<close> for an object that is
  not in \<open>seen\<close>, after \<^verbatim>\<open>seen.add(value)\<close>.
\<close>

definition expand :: "config \<Rightarrow> string option \<Rightarrow> nat option \<Rightarrow> nat \<Rightarrow> obj \<Rightarrow> state \<Rightarrow> state" where
  "expand cfg key index depth ob s =
     (case ob of
        OArray xs \<Rightarrow>
          (let s1 = addSize cfg 2 s in
           if may_expand cfg depth s1
           then push (None, Enc RIGHT_BRACKET, None, depth)
                  (pushElements cfg depth 0 xs
                    (push (key, Enc LEFT_BRACKET, index, depth) s1))
           else render key (TEnc BRACKETS) index s1)
      | ODate t \<Rightarrow> render key (TPrim (PStr t)) index s
      | OError t \<Rightarrow> render key (TPrim (PStr t)) index s
      | ORegExp t \<Rightarrow> render key (TPrim (PStr t)) index s
      | OObject kvs \<Rightarrow>
          (if kvs \<noteq> [] then
             (let s1 = addSize cfg 2 s in
              if may_expand cfg depth s1
              then push (None, Enc RIGHT_BRACE, None, depth)
                     (pushProperties cfg depth 0 kvs
                       (push (key, Enc LEFT_BRACE, index, depth) s1))
              else render key (TEnc BRACES) index s1)
           else s))"

text \<open>
  The last branch of \<^verbatim>\<open>iterateStack\<close>: a symbol or a primitive is rendered, and a
  truthy index is charged one unit for the comma.
\<close>

definition leaf :: "string option \<Rightarrow> token \<Rightarrow> nat option \<Rightarrow> config \<Rightarrow> state \<Rightarrow> state" where
  "leaf key v index cfg s =
     (let s1 = render key v index s in
      if truthy_index index then addSize cfg 1 s1 else s1)"

text \<open>
  \<^verbatim>\<open>iterateStack\<close>. Both drivers call it only while the stack is not empty. An address
  outside the heap is not a value a JavaScript program can hold; the model pops such a
  frame and emits nothing.
\<close>

definition iterateStack :: "config \<Rightarrow> state \<Rightarrow> state" where
  "iterateStack cfg s =
     (case stack s of
        [] \<Rightarrow> s
      | (key, value, index, depth) # rest \<Rightarrow>
          (let s0 = s\<lparr>stack := rest\<rparr> in
           case value of
             Enc e \<Rightarrow> leaf key (TEnc e) index cfg s0
           | Val (VPrim p) \<Rightarrow> leaf key (TPrim p) index cfg s0
           | Val (VFun name) \<Rightarrow> render key (TPrim (PStr (function_text name))) index s0
           | Val (VRef a) \<Rightarrow>
               (if a \<in> seen s0 then
                  (let s1 = addSize cfg 20 s0 in
                   if \<not> sizeLimitReached s1
                   then render key (TPrim (PStr ''[circular reference]'')) index s1
                   else s1)
                else
                  (let s1 = s0\<lparr>seen := insert a (seen s0)\<rparr> in
                   case heap_at cfg a of
                     None \<Rightarrow> s1
                   | Some ob \<Rightarrow> expand cfg key index depth ob s1))))"

subsection \<open>What each operation leaves unchanged\<close>

lemma set_size_fields [simp]:
  "stack (set_size cfg z s) = stack s"
  "seen (set_size cfg z s) = seen s"
  "output_js (set_size cfg z s) = output_js s"
  "emitted (set_size cfg z s) = emitted s"
  "size_js (set_size cfg z s) = z"
  by (simp_all add: set_size_def)

lemma measureSize_fields [simp]:
  "stack (measureSize cfg v s) = stack s"
  "seen (measureSize cfg v s) = seen s"
  "output_js (measureSize cfg v s) = output_js s"
  "emitted (measureSize cfg v s) = emitted s"
  by (simp_all add: measureSize_def)

lemma addSize_fields [simp]:
  "stack (addSize cfg n s) = stack s"
  "seen (addSize cfg n s) = seen s"
  "output_js (addSize cfg n s) = output_js s"
  "emitted (addSize cfg n s) = emitted s"
  "size_js (addSize cfg n s) = plus_num (size_js s) n"
  by (simp_all add: addSize_def)

lemma render_fields [simp]:
  "stack (render k v i s) = stack s"
  "seen (render k v i s) = seen s"
  "size_js (render k v i s) = size_js s"
  "sizeLimitReached (render k v i s) = sizeLimitReached s"
  "output_js (render k v i s) = render_str k v i @ output_js s"
  "emitted (render k v i s) = (k, v, i) # emitted s"
  by (simp_all add: render_def)

lemma push_fields [simp]:
  "stack (push f s) = f # stack s"
  "seen (push f s) = seen s"
  "size_js (push f s) = size_js s"
  "sizeLimitReached (push f s) = sizeLimitReached s"
  "output_js (push f s) = output_js s"
  "emitted (push f s) = emitted s"
  by (simp_all add: push_def)

lemma leaf_fields [simp]:
  "stack (leaf k v i cfg s) = stack s"
  "seen (leaf k v i cfg s) = seen s"
  "output_js (leaf k v i cfg s) = render_str k v i @ output_js s"
  "emitted (leaf k v i cfg s) = (k, v, i) # emitted s"
  by (simp_all add: leaf_def Let_def)

lemma pushElements_fields [simp]:
  "seen (pushElements cfg d i xs s) = seen s"
  "output_js (pushElements cfg d i xs s) = output_js s"
  "emitted (pushElements cfg d i xs s) = emitted s"
  by (induction cfg d i xs s rule: pushElements.induct; simp add: Let_def)+

lemma pushProperties_fields [simp]:
  "seen (pushProperties cfg d i kvs s) = seen s"
  "output_js (pushProperties cfg d i kvs s) = output_js s"
  "emitted (pushProperties cfg d i kvs s) = emitted s"
  by (induction cfg d i kvs s rule: pushProperties.induct; simp add: Let_def)+

lemma expand_seen [simp]: "seen (expand cfg k i d ob s) = seen s"
  by (cases ob) (simp_all add: expand_def Let_def)

subsection \<open>The branches of \<open>iterateStack\<close>\<close>

lemma iterateStack_Enc:
  "stack s = (key, Enc e, index, depth) # rest \<Longrightarrow>
   iterateStack cfg s = leaf key (TEnc e) index cfg (s\<lparr>stack := rest\<rparr>)"
  by (simp add: iterateStack_def)

lemma iterateStack_VPrim:
  "stack s = (key, Val (VPrim p), index, depth) # rest \<Longrightarrow>
   iterateStack cfg s = leaf key (TPrim p) index cfg (s\<lparr>stack := rest\<rparr>)"
  by (simp add: iterateStack_def)

lemma iterateStack_VFun:
  "stack s = (key, Val (VFun name), index, depth) # rest \<Longrightarrow>
   iterateStack cfg s = render key (TPrim (PStr (function_text name))) index (s\<lparr>stack := rest\<rparr>)"
  by (simp add: iterateStack_def)

lemma iterateStack_seen:
  "stack s = (key, Val (VRef a), index, depth) # rest \<Longrightarrow> a \<in> seen s \<Longrightarrow>
   iterateStack cfg s =
     (let s1 = addSize cfg 20 (s\<lparr>stack := rest\<rparr>) in
      if \<not> sizeLimitReached s1
      then render key (TPrim (PStr ''[circular reference]'')) index s1
      else s1)"
  by (simp add: iterateStack_def)

lemma iterateStack_unseen:
  "stack s = (key, Val (VRef a), index, depth) # rest \<Longrightarrow> a \<notin> seen s \<Longrightarrow>
   iterateStack cfg s =
     (case heap_at cfg a of
        None \<Rightarrow> s\<lparr>stack := rest, seen := insert a (seen s)\<rparr>
      | Some ob \<Rightarrow> expand cfg key index depth ob (s\<lparr>stack := rest, seen := insert a (seen s)\<rparr>))"
  by (simp add: iterateStack_def Let_def)

subsection \<open>The drivers\<close>

text \<open>
  Termination of \<^verbatim>\<open>while (stack.length) iterateStack()\<close>: a step either adds a heap
  address to \<open>seen\<close> that was not there, or leaves \<open>seen\<close> as it is and shortens the
  stack by one.
\<close>

definition unseen :: "config \<Rightarrow> state \<Rightarrow> nat" where
  "unseen cfg s = card ({a. a < length (heap cfg)} - seen s)"

lemma unseen_insert:
  assumes "a < length (heap cfg)" and "a \<notin> seen s" and "seen s' = insert a (seen s)"
  shows "unseen cfg s' < unseen cfg s"
  unfolding unseen_def using assms
  by (intro psubset_card_mono) auto

lemma iterateStack_decreases:
  assumes "stack s \<noteq> []"
  shows "unseen cfg (iterateStack cfg s) < unseen cfg s
       \<or> (unseen cfg (iterateStack cfg s) = unseen cfg s
          \<and> length (stack (iterateStack cfg s)) < length (stack s))"
proof -
  obtain key v index depth rest where st: "stack s = (key, v, index, depth) # rest"
    using assms by (cases "stack s") auto
  show ?thesis
  proof (cases v)
    case (Enc e)
    then show ?thesis using st by (simp add: iterateStack_Enc unseen_def)
  next
    case (Val w)
    show ?thesis
    proof (cases w)
      case (VPrim p)
      then show ?thesis using st Val by (simp add: iterateStack_VPrim unseen_def)
    next
      case (VFun n)
      then show ?thesis using st Val by (simp add: iterateStack_VFun unseen_def)
    next
      case (VRef a)
      show ?thesis
      proof (cases "a \<in> seen s")
        case True
        then show ?thesis using st Val VRef by (simp add: iterateStack_seen unseen_def Let_def)
      next
        case False
        show ?thesis
        proof (cases "heap_at cfg a")
          case None
          then have "\<not> a < length (heap cfg)" by (simp add: heap_at_def split: if_splits)
          then have "{a. a < length (heap cfg)} - insert a (seen s) = {a. a < length (heap cfg)} - seen s"
            by auto
          then show ?thesis using st Val VRef False None
            by (simp add: iterateStack_unseen unseen_def)
        next
          case (Some ob)
          then have "a < length (heap cfg)" by (simp add: heap_at_def split: if_splits)
          moreover have "seen (iterateStack cfg s) = insert a (seen s)"
            using st Val VRef False Some by (simp add: iterateStack_unseen)
          ultimately show ?thesis using False unseen_insert by blast
        qed
      qed
    qed
  qed
qed

text \<open>The synchronous driver \<^verbatim>\<open>while (stack.length) { iterateStack() }\<close>.\<close>

function iterate :: "config \<Rightarrow> state \<Rightarrow> state" where
  "iterate cfg s = (if stack s = [] then s else iterate cfg (iterateStack cfg s))"
  by pat_completeness auto
termination
proof (relation "inv_image (less_than <*lex*> less_than) (\<lambda>(cfg, s). (unseen cfg s, length (stack s)))")
  show "wf (inv_image (less_than <*lex*> less_than) (\<lambda>(cfg, s). (unseen cfg s, length (stack s))))"
    by (intro wf_inv_image wf_lex_prod wf_less_than)
next
  fix cfg :: config and s :: state
  assume "stack s \<noteq> []"
  then show "((cfg, iterateStack cfg s), (cfg, s))
        \<in> inv_image (less_than <*lex*> less_than) (\<lambda>(cfg, s). (unseen cfg s, length (stack s)))"
    using iterateStack_decreases [of s cfg] by auto
qed

declare iterate.simps [simp del]

definition initial :: "jsval \<Rightarrow> state" where
  "initial object =
     \<lparr>stack = [(None, Val object, None, 0)], seen = {}, size_js = SizeNum 0,
      sizeLimitReached = False, output_js = [], emitted = []\<rparr>"

text \<open>\<^verbatim>\<open>smartSerialize(object, maxDepth, maxSize)\<close> without a callback.\<close>

definition serialize :: "config \<Rightarrow> jsval \<Rightarrow> string" where
  "serialize cfg object = output_js (iterate cfg (initial object))"

text \<open>
  With a callback, \<^verbatim>\<open>callbackStack\<close> runs at most \<^verbatim>\<open>BATCH_SIZE\<close> steps; then it
  either hands itself to \<^verbatim>\<open>setTimeout\<close> or calls the callback with the output.
\<close>

definition BATCH_SIZE :: nat where
  "BATCH_SIZE = 10000"

function batchLoop :: "config \<Rightarrow> nat \<Rightarrow> state \<Rightarrow> state" where
  "batchLoop cfg i s =
     (if stack s \<noteq> [] \<and> i < BATCH_SIZE then batchLoop cfg (i + 1) (iterateStack cfg s) else s)"
  by pat_completeness auto
termination
  by (relation "measure (\<lambda>(cfg, i, s). BATCH_SIZE - i)") auto

declare batchLoop.simps [simp del]

text \<open>
  What one call of \<^verbatim>\<open>smartSerialize\<close> has done when it returns: the value of its
  \<^verbatim>\<open>return\<close> statement, the string the callback was called with (if it was called
  before the return), and the closure state of a pending \<^verbatim>\<open>setTimeout(callbackStack)\<close>.
\<close>

record call_result =
  returned :: prim
  delivered :: "string option"
  timer :: "state option"

definition callbackStack :: "config \<Rightarrow> state \<Rightarrow> state \<times> string option \<times> bool" where
  "callbackStack cfg s =
     (let s1 = batchLoop cfg 0 s in
      if stack s1 \<noteq> [] then (s1, None, True) else (s1, Some (output_js s1), False))"

definition smartSerialize :: "config \<Rightarrow> jsval \<Rightarrow> bool \<Rightarrow> call_result" where
  "smartSerialize cfg object callback =
     (if callback then
        (case callbackStack cfg (initial object) of
           (s1, called, scheduled) \<Rightarrow>
             \<lparr>returned = PStr (output_js s1), delivered = called,
              timer = (if scheduled then Some s1 else None)\<rparr>)
      else
        (let s1 = iterate cfg (initial object) in
         \<lparr>returned = PStr (output_js s1), delivered = None, timer = None\<rparr>))"

text \<open>
  The timers that fire after the call has returned: each runs \<^verbatim>\<open>callbackStack\<close> once
  more. The result is the string the callback is called with in the end.
\<close>

lemma batchLoop_progress:
  "stack s \<noteq> [] \<Longrightarrow> i < BATCH_SIZE \<Longrightarrow>
   ((unseen cfg (batchLoop cfg i s), length (stack (batchLoop cfg i s))),
    (unseen cfg s, length (stack s))) \<in> less_than <*lex*> less_than"
proof (induction cfg i s rule: batchLoop.induct)
  case (1 cfg i s)
  let ?t = "iterateStack cfg s"
  have step: "((unseen cfg ?t, length (stack ?t)), (unseen cfg s, length (stack s)))
                \<in> less_than <*lex*> less_than"
    using iterateStack_decreases [OF "1.prems"(1), of cfg] by auto
  show ?case
  proof (cases "stack ?t \<noteq> [] \<and> i + 1 < BATCH_SIZE")
    case True
    then have "((unseen cfg (batchLoop cfg (i + 1) ?t), length (stack (batchLoop cfg (i + 1) ?t))),
                (unseen cfg ?t, length (stack ?t))) \<in> less_than <*lex*> less_than"
      using "1.IH" "1.prems" by simp
    moreover have "batchLoop cfg i s = batchLoop cfg (i + 1) ?t"
      using "1.prems" by (subst batchLoop.simps) simp
    moreover have "trans (less_than <*lex*> less_than)"
      by (intro trans_lex_prod trans_less_than)
    ultimately show ?thesis using step by (metis transD)
  next
    case False
    then have "batchLoop cfg (i + 1) ?t = ?t"
      by (subst batchLoop.simps) auto
    moreover have "batchLoop cfg i s = batchLoop cfg (i + 1) ?t"
      using "1.prems" by (subst batchLoop.simps) simp
    ultimately show ?thesis using step by simp
  qed
qed

lemma callbackStack_scheduled:
  assumes "callbackStack cfg s = (s1, called, True)"
  shows "((unseen cfg s1, length (stack s1)), (unseen cfg s, length (stack s)))
           \<in> less_than <*lex*> less_than"
proof -
  have s1: "s1 = batchLoop cfg 0 s" and ne: "stack s1 \<noteq> []"
    using assms by (auto simp add: callbackStack_def Let_def split: if_splits)
  have "stack s \<noteq> []"
  proof
    assume "stack s = []"
    then have "batchLoop cfg 0 s = s" by (subst batchLoop.simps) simp
    then show False using s1 ne \<open>stack s = []\<close> by simp
  qed
  then show ?thesis using batchLoop_progress [of s 0 cfg] s1 by (simp add: BATCH_SIZE_def)
qed

function fireTimers :: "config \<Rightarrow> state \<Rightarrow> string option" where
  "fireTimers cfg s =
     (case callbackStack cfg s of
        (s1, called, scheduled) \<Rightarrow> if scheduled then fireTimers cfg s1 else called)"
  by pat_completeness auto
termination
proof (relation "inv_image (less_than <*lex*> less_than) (\<lambda>(cfg, s). (unseen cfg s, length (stack s)))")
  show "wf (inv_image (less_than <*lex*> less_than) (\<lambda>(cfg, s). (unseen cfg s, length (stack s))))"
    by (intro wf_inv_image wf_lex_prod wf_less_than)
next
  fix cfg :: config and s s1 :: state and x called scheduled
  assume "(s1, x) = callbackStack cfg s" and "(called, scheduled) = x" and scheduled
  then have "callbackStack cfg s = (s1, called, True)" by simp
  then show "((cfg, s1), (cfg, s))
        \<in> inv_image (less_than <*lex*> less_than) (\<lambda>(cfg, s). (unseen cfg s, length (stack s)))"
    using callbackStack_scheduled by simp
qed

declare fireTimers.simps [simp del]

text \<open>
  A configuration for the examples. For a string that is not a numeric literal the
  platform's conversion yields \<open>NaN\<close>.
\<close>

definition example_config :: "obj list \<Rightarrow> jsnum \<Rightarrow> jsnum \<Rightarrow> config" where
  "example_config h d z = \<lparr>heap = h, maxDepth = d, maxSize = z, toNumber = (\<lambda>t. NaN)\<rparr>"

section \<open>The escaper\<close>

text \<open>
  The escaping rule in the words of the specification: seven characters have a
  two-character escape, any other control character becomes \<^verbatim>\<open>\u00XX\<close> with two
  hexadecimal digits, every other character stays.
\<close>

definition spec_escape_char :: "char \<Rightarrow> string" where
  "spec_escape_char c =
     (if c = CHR 0x08 then [CHR 0x5C, CHR ''b'']
      else if c = CHR 0x09 then [CHR 0x5C, CHR ''t'']
      else if c = CHR 0x0A then [CHR 0x5C, CHR ''n'']
      else if c = CHR 0x0C then [CHR 0x5C, CHR ''f'']
      else if c = CHR 0x0D then [CHR 0x5C, CHR ''r'']
      else if c = CHR 0x22 then [CHR 0x5C, CHR 0x22]
      else if c = CHR 0x5C then [CHR 0x5C, CHR 0x5C]
      else if (of_char c :: nat) < 0x20
        then [CHR 0x5C, CHR ''u'', CHR ''0'', CHR ''0'',
              hexDigit (of_char c div 16), hexDigit (of_char c mod 16)]
      else [c])"

lemma toString16_small: "n < 16 \<Longrightarrow> toString16 n = [hexDigit n]"
  by (subst toString16.simps) simp

lemma toString16_two: "16 \<le> n \<Longrightarrow> n < 256 \<Longrightarrow> toString16 n = [hexDigit (n div 16), hexDigit (n mod 16)]"
  by (subst toString16.simps) (simp add: toString16_small less_mult_imp_div_less)

lemma hexDigit_0: "hexDigit 0 = CHR ''0''"
  by (simp add: hexDigit_def)

lemma escape_replace_control:
  assumes "escape_table a = None" and "(of_char a :: nat) < 0x20"
  shows "escape_replace a =
         [CHR 0x5C, CHR ''u'', CHR ''0'', CHR ''0'',
          hexDigit (of_char a div 16), hexDigit (of_char a mod 16)]"
proof (cases "(of_char a :: nat) < 16")
  case True
  then show ?thesis using assms(1)
    by (simp add: escape_replace_def toString16_small slice_last4_def backslash_def hexDigit_0)
next
  case False
  then have "toString16 (of_char a) = [hexDigit (of_char a div 16), hexDigit (of_char a mod 16)]"
    using assms(2) by (intro toString16_two) simp_all
  then show ?thesis using assms(1)
    by (simp add: escape_replace_def slice_last4_def backslash_def)
qed

lemma escape_replace_spec: "ESCAPE_REGEXP a \<Longrightarrow> escape_replace a = spec_escape_char a"
proof (cases "escape_table a")
  case None
  assume "ESCAPE_REGEXP a"
  with None have lt: "(of_char a :: nat) < 0x20"
    by (auto simp add: ESCAPE_REGEXP_def escape_table_def split: if_splits)
  have "spec_escape_char a =
        [CHR 0x5C, CHR ''u'', CHR ''0'', CHR ''0'',
         hexDigit (of_char a div 16), hexDigit (of_char a mod 16)]"
    using None lt by (simp add: spec_escape_char_def escape_table_def split: if_splits)
  then show ?thesis using escape_replace_control [OF None lt] by simp
next
  case (Some r)
  then show ?thesis
    by (auto simp add: escape_replace_def spec_escape_char_def escape_table_def backslash_def
             split: if_splits)
qed

lemma spec_escape_char_other: "\<not> ESCAPE_REGEXP a \<Longrightarrow> spec_escape_char a = [a]"
  by (auto simp add: ESCAPE_REGEXP_def spec_escape_char_def)

lemma spec_escape_unchanged: "\<not> list_ex ESCAPE_REGEXP v \<Longrightarrow> concat (map spec_escape_char v) = v"
  by (induction v) (simp_all add: spec_escape_char_other)

lemma escape_char_wise: "escape v = concat (map spec_escape_char v)"
proof (cases "list_ex ESCAPE_REGEXP v")
  case True
  have "(\<lambda>a. if ESCAPE_REGEXP a then escape_replace a else [a]) = spec_escape_char"
    by (rule ext) (simp add: escape_replace_spec spec_escape_char_other)
  then show ?thesis using True by (simp add: escape_def)
next
  case False
  then show ?thesis by (simp add: escape_def spec_escape_unchanged)
qed

text \<open>
  C9. For every string, \<open>escape\<close> replaces each character as the rule says: backspace,
  tab, line feed, form feed, carriage return, double quote and backslash by their
  two-character escapes, every other character below 0x20 by \<^verbatim>\<open>\u00\<close> and its two
  (lower-case) hexadecimal digits, and every other character, the single quote among
  them, by itself.
\<close>

theorem escape_spec:
  "escape v = concat (map spec_escape_char v)
   \<and> (\<forall>c. (of_char c :: nat) < 0x20 \<longrightarrow> length (spec_escape_char c) = 2 \<or> length (spec_escape_char c) = 6)
   \<and> spec_escape_char (CHR 0x27) = [CHR 0x27]"
  by (simp add: escape_char_wise spec_escape_char_def)

theorem escape_spec_witness:
  "escape [CHR 0x08, CHR 0x09, CHR 0x0A, CHR 0x0C, CHR 0x0D, CHR 0x22, CHR 0x5C,
           CHR 0x00, CHR 0x1F, CHR 0x27, CHR ''a'']
   = [CHR 0x5C, CHR ''b'', CHR 0x5C, CHR ''t'', CHR 0x5C, CHR ''n'', CHR 0x5C, CHR ''f'',
      CHR 0x5C, CHR ''r'', CHR 0x5C, CHR 0x22, CHR 0x5C, CHR 0x5C,
      CHR 0x5C, CHR ''u'', CHR ''0'', CHR ''0'', CHR ''0'', CHR ''0'',
      CHR 0x5C, CHR ''u'', CHR ''0'', CHR ''0'', CHR ''1'', CHR ''f'',
      CHR 0x27, CHR ''a'']"
  using conjunct1 [OF escape_spec [of "[CHR 0x08, CHR 0x09, CHR 0x0A, CHR 0x0C, CHR 0x0D, CHR 0x22,
           CHR 0x5C, CHR 0x00, CHR 0x1F, CHR 0x27, CHR ''a'']"]]
  by (simp add: spec_escape_char_def hexDigit_def)

section \<open>Infinite size limit\<close>

lemma js_less_PosInf [simp]: "js_less PosInf x = False"
  by (cases x) simp_all

lemma not_exceeds_PosInf: "maxSize cfg = PosInf \<Longrightarrow> \<not> exceeds cfg z"
  by (simp add: exceeds_def split: sizeval.splits)

lemma flag_PosInf [simp]:
  "maxSize cfg = PosInf \<Longrightarrow> sizeLimitReached (set_size cfg z s) = sizeLimitReached s"
  "maxSize cfg = PosInf \<Longrightarrow> sizeLimitReached (measureSize cfg v s) = sizeLimitReached s"
  "maxSize cfg = PosInf \<Longrightarrow> sizeLimitReached (addSize cfg n s) = sizeLimitReached s"
  by (simp_all add: set_size_def measureSize_def addSize_def not_exceeds_PosInf)

section \<open>Keys\<close>

text \<open>
  C10. A key that is not empty is written between two double quotes exactly as it is,
  whatever characters it holds: \<open>render\<close> applies \<open>escape\<close> to a string value only. So an
  object with one such key and a primitive value, serialized without limits, gives
  \<^verbatim>\<open>{"\<close>, the key, \<^verbatim>\<open>":\<close>, the text of the value and \<^verbatim>\<open>}\<close>.
\<close>

theorem keys_not_escaped:
  assumes "k \<noteq> []"
  shows "render_str (Some k) v index
           = (if truthy_index index then '','' else []) @ [CHR 0x22] @ k @ [CHR 0x22, CHR '':'']
             @ token_str v
       \<and> serialize \<lparr>heap = [OObject [(k, VPrim p)]], maxDepth = PosInf, maxSize = PosInf,
                     toNumber = f\<rparr> (VRef 0)
           = ''{'' @ [CHR 0x22] @ k @ [CHR 0x22, CHR '':''] @ token_str (TPrim p) @ ''}''"
proof
  show "render_str (Some k) v index
           = (if truthy_index index then '','' else []) @ [CHR 0x22] @ k @ [CHR 0x22, CHR '':'']
             @ token_str v"
    using assms by (simp add: render_str_def prefix_str_def dquote_def)
next
  let ?cfg = "\<lparr>heap = [OObject [(k, VPrim p)]], maxDepth = PosInf, maxSize = PosInf, toNumber = f\<rparr>"
  have inf: "maxSize ?cfg = PosInf" by simp
  show "serialize ?cfg (VRef 0)
           = ''{'' @ [CHR 0x22] @ k @ [CHR 0x22, CHR '':''] @ token_str (TPrim p) @ ''}''"
    using assms
    by (simp add: serialize_def initial_def iterate.simps iterateStack_def expand_def Let_def
          heap_at_def may_expand_def leaf_def render_def render_str_def prefix_str_def
          truthy_index_def dquote_def push_def token_str_def [of "TEnc _"] getEnclosure_def
          flag_PosInf [OF inf])
qed

theorem keys_not_escaped_witness:
  "[CHR ''a'', CHR 0x22, CHR 0x5C, CHR 0x0A] \<noteq> []
   \<and> serialize \<lparr>heap = [OObject [([CHR ''a'', CHR 0x22, CHR 0x5C, CHR 0x0A], VPrim (PNum ''1''))]],
                 maxDepth = PosInf, maxSize = PosInf, toNumber = (\<lambda>t. NaN)\<rparr> (VRef 0)
       = [CHR ''{'', CHR 0x22, CHR ''a'', CHR 0x22, CHR 0x5C, CHR 0x0A, CHR 0x22, CHR '':'',
          CHR ''1'', CHR ''}'']"
  using keys_not_escaped [of "[CHR ''a'', CHR 0x22, CHR 0x5C, CHR 0x0A]" "TPrim PNull" None
      "PNum ''1''" "\<lambda>t. NaN"]
  by (simp add: token_str_def)

section \<open>Depth limit\<close>

lemma js_le_not_less: "js_le a b \<Longrightarrow> \<not> js_less b a"
  by (cases a; cases b) simp_all

text \<open>
  C4. A frame holds a reference to an object that is not in \<open>seen\<close>, at a depth that is
  at least \<open>maxDepth\<close>. If the object is an array, the step renders \<^verbatim>\<open>[]\<close> in its
  place (after the comma and key of the frame) and pushes nothing; if it is an object
  with at least one key, the step renders \<^verbatim>\<open>{}\<close> and pushes nothing. The object is in
  \<open>seen\<close> from then on, so it is not expanded later either. The example of the
  specification: \<^verbatim>\<open>{foo: {bar: {baz: "qux"}}}\<close> with \<open>maxDepth = 2\<close>.
\<close>

theorem depth_limit_collapses:
  assumes "stack s = (key, Val (VRef a), index, depth) # rest"
    and "a \<notin> seen s"
    and "js_le (maxDepth cfg) (Fin (of_nat depth))"
  shows "(heap_at cfg a = Some (OArray xs) \<longrightarrow>
            iterateStack cfg s
              = render key (TEnc BRACKETS) index
                  (addSize cfg 2 (s\<lparr>stack := rest, seen := insert a (seen s)\<rparr>))
            \<and> stack (iterateStack cfg s) = rest
            \<and> output_js (iterateStack cfg s) = prefix_str key index @ ''[]'' @ output_js s)
       \<and> (heap_at cfg a = Some (OObject kvs) \<and> kvs \<noteq> [] \<longrightarrow>
            iterateStack cfg s
              = render key (TEnc BRACES) index
                  (addSize cfg 2 (s\<lparr>stack := rest, seen := insert a (seen s)\<rparr>))
            \<and> stack (iterateStack cfg s) = rest
            \<and> output_js (iterateStack cfg s) = prefix_str key index @ ''{}'' @ output_js s)
       \<and> serialize
            (example_config
               [OObject [(''foo'', VRef 1)], OObject [(''bar'', VRef 2)],
                OObject [(''baz'', VPrim (PStr ''qux''))]]
               (Fin 2) PosInf)
            (VRef 0)
          = [CHR ''{'', CHR 0x22, CHR ''f'', CHR ''o'', CHR ''o'', CHR 0x22, CHR '':'',
             CHR ''{'', CHR 0x22, CHR ''b'', CHR ''a'', CHR ''r'', CHR 0x22, CHR '':'',
             CHR ''{'', CHR ''}'', CHR ''}'', CHR ''}'']"
proof -
  have deep: "\<not> may_expand cfg depth z" for z
    using assms(3) by (simp add: may_expand_def js_le_not_less)
  have arr: "iterateStack cfg s
              = render key (TEnc BRACKETS) index
                  (addSize cfg 2 (s\<lparr>stack := rest, seen := insert a (seen s)\<rparr>))"
    if "heap_at cfg a = Some (OArray xs)"
    using assms(1,2) that deep by (simp add: iterateStack_unseen expand_def Let_def)
  have ob: "iterateStack cfg s
              = render key (TEnc BRACES) index
                  (addSize cfg 2 (s\<lparr>stack := rest, seen := insert a (seen s)\<rparr>))"
    if "heap_at cfg a = Some (OObject kvs)" and "kvs \<noteq> []"
    using assms(1,2) that deep by (simp add: iterateStack_unseen expand_def Let_def)
  have ex: "serialize
            (example_config
               [OObject [(''foo'', VRef 1)], OObject [(''bar'', VRef 2)],
                OObject [(''baz'', VPrim (PStr ''qux''))]]
               (Fin 2) PosInf)
            (VRef 0)
          = [CHR ''{'', CHR 0x22, CHR ''f'', CHR ''o'', CHR ''o'', CHR 0x22, CHR '':'',
             CHR ''{'', CHR 0x22, CHR ''b'', CHR ''a'', CHR ''r'', CHR 0x22, CHR '':'',
             CHR ''{'', CHR ''}'', CHR ''}'', CHR ''}'']"
    by code_simp
  show ?thesis
    using arr ob ex
    by (simp add: render_str_def token_str_def getEnclosure_def)
qed

theorem depth_limit_collapses_witness:
  "js_le (Fin 0) (Fin (of_nat 0))
   \<and> output_js (iterateStack (example_config [OArray [VPrim (PNum ''1'')]] (Fin 0) PosInf)
                  (initial (VRef 0))) = ''[]''
   \<and> stack (iterateStack (example_config [OArray [VPrim (PNum ''1'')]] (Fin 0) PosInf)
                  (initial (VRef 0))) = []
   \<and> output_js (iterateStack (example_config [OObject [(''a'', VPrim (PNum ''1''))]] (Fin 0) PosInf)
                  (initial (VRef 0))) = ''{}''
   \<and> stack (iterateStack (example_config [OObject [(''a'', VPrim (PNum ''1''))]] (Fin 0) PosInf)
                  (initial (VRef 0))) = []"
  using depth_limit_collapses [where s = "initial (VRef 0)" and key = None and a = 0
      and index = None and depth = 0 and rest = "[]"
      and cfg = "example_config [OArray [VPrim (PNum ''1'')]] (Fin 0) PosInf"
      and xs = "[VPrim (PNum ''1'')]" and kvs = "[]"]
    depth_limit_collapses [where s = "initial (VRef 0)" and key = None and a = 0
      and index = None and depth = 0 and rest = "[]"
      and cfg = "example_config [OObject [(''a'', VPrim (PNum ''1''))]] (Fin 0) PosInf"
      and xs = "[]" and kvs = "[(''a'', VPrim (PNum ''1''))]"]
  by (simp add: initial_def example_config_def heap_at_def prefix_str_def truthy_index_def
        render_str_def token_str_def getEnclosure_def)

section \<open>The size estimate of an Error or RegExp\<close>

text \<open>
  C5. For an Error or a RegExp \<open>measureSize\<close> executes
  \<^verbatim>\<open>size += value.toString()\<close>: it appends the text to \<open>size\<close> instead of adding the
  length of the text. In the array \<^verbatim>\<open>[/a/]\<close> the estimate after the brackets is 2; after
  the element it is the string \<^verbatim>\<open>2/a/\<close>, not 5. With \<open>maxSize = 3\<close> the element is
  therefore pushed and rendered, although 5 exceeds 3.
\<close>

theorem measureSize_pattern_appends_text:
  "size_js (measureSize (example_config [OArray [VRef 1], ORegExp ''/a/''] PosInf (Fin 3)) (VRef 1)
              ((initial (VRef 0))\<lparr>size_js := SizeNum 2\<rparr>)) = SizeStr ''2/a/''
   \<and> \<not> sizeLimitReached
         (measureSize (example_config [OArray [VRef 1], ORegExp ''/a/''] PosInf (Fin 3)) (VRef 1)
              ((initial (VRef 0))\<lparr>size_js := SizeNum 2\<rparr>))
   \<and> serialize (example_config [OArray [VRef 1], ORegExp ''/a/''] PosInf (Fin 3)) (VRef 0)
       = [CHR ''['', CHR 0x22, CHR ''/'', CHR ''a'', CHR ''/'', CHR 0x22, CHR '']'']
   \<and> size_js (measureSize (example_config [OArray [VRef 1], OError ''Error: x''] PosInf (Fin 3)) (VRef 1)
              ((initial (VRef 0))\<lparr>size_js := SizeNum 2\<rparr>)) = SizeStr ''2Error: x''"
  by code_simp

section \<open>Values that are already in \<open>seen\<close>\<close>

definition cyclic_array :: "obj list" where
  "cyclic_array = [OArray [VRef 0]]"

text \<open>
  C6, as stated, fails: the array \<^verbatim>\<open>a = [a]\<close> with \<open>maxSize = 10\<close>. After two steps
  the top frame holds \<open>a\<close> again, which is in \<open>seen\<close>; the charge of 20 exceeds the limit
  and no token is rendered: the result is \<^verbatim>\<open>[]\<close>.
\<close>

theorem circular_token_suppressed:
  "stack (iterateStack (example_config cyclic_array PosInf (Fin 10))
            (iterateStack (example_config cyclic_array PosInf (Fin 10)) (initial (VRef 0))))
     = [(None, Val (VRef 0), Some 0, 1), (None, Enc LEFT_BRACKET, None, 0)]
   \<and> 0 \<in> seen (iterateStack (example_config cyclic_array PosInf (Fin 10))
            (iterateStack (example_config cyclic_array PosInf (Fin 10)) (initial (VRef 0))))
   \<and> emitted (iterateStack (example_config cyclic_array PosInf (Fin 10))
         (iterateStack (example_config cyclic_array PosInf (Fin 10))
            (iterateStack (example_config cyclic_array PosInf (Fin 10)) (initial (VRef 0)))))
      = [(None, TEnc RIGHT_BRACKET, None)]
   \<and> serialize (example_config cyclic_array PosInf (Fin 10)) (VRef 0) = ''[]''"
  by code_simp

text \<open>
  C6, amended. A frame whose payload is a reference already in \<open>seen\<close> is charged 20
  units; then, unless the size limit is reached (by this charge or before), the step
  renders the string \<^verbatim>\<open>[circular reference]\<close> in quotes after the comma and key of the
  frame; if the limit is reached it renders nothing. Nothing is pushed. This holds for
  every frame popped after the one that put the object into \<open>seen\<close>, whether the object
  contains itself or is referred to twice.
\<close>

theorem seen_payload_circular:
  assumes "stack s = (key, Val (VRef a), index, depth) # rest"
    and "a \<in> seen s"
  shows "size_js (iterateStack cfg s) = plus_num (size_js s) 20
       \<and> stack (iterateStack cfg s) = rest
       \<and> seen (iterateStack cfg s) = seen s
       \<and> sizeLimitReached (iterateStack cfg s)
           = (sizeLimitReached s \<or> exceeds cfg (plus_num (size_js s) 20))
       \<and> output_js (iterateStack cfg s)
           = (if sizeLimitReached (iterateStack cfg s) then output_js s
              else prefix_str key index @ [CHR 0x22] @ ''[circular reference]'' @ [CHR 0x22]
                   @ output_js s)"
proof -
  have esc: "escape ''[circular reference]'' = ''[circular reference]''"
    by (simp add: escape_def ESCAPE_REGEXP_def)
  show ?thesis
    using assms
    by (simp add: iterateStack_seen Let_def addSize_def set_size_def render_str_def
          token_str_def esc dquote_def)
qed

theorem seen_payload_circular_witness:
  "output_js (iterateStack (example_config [OObject [(''foo'', VRef 1)], OObject [(''bar'', VRef 0)]] PosInf PosInf)
      \<lparr>stack = [(Some ''bar'', Val (VRef 0), Some 0, 2), (Some ''foo'', Enc LEFT_BRACE, Some 0, 1),
                (None, Enc LEFT_BRACE, None, 0)],
       seen = {0, 1}, size_js = SizeNum 16, sizeLimitReached = False, output_js = ''}}'',
       emitted = []\<rparr>)
     = [CHR 0x22, CHR ''b'', CHR ''a'', CHR ''r'', CHR 0x22, CHR '':'', CHR 0x22]
       @ ''[circular reference]'' @ [CHR 0x22] @ ''}}''
   \<and> serialize (example_config [OObject [(''foo'', VRef 1)], OObject [(''bar'', VRef 0)]] PosInf PosInf)
        (VRef 0)
       = [CHR ''{'', CHR 0x22, CHR ''f'', CHR ''o'', CHR ''o'', CHR 0x22, CHR '':'',
          CHR ''{'', CHR 0x22, CHR ''b'', CHR ''a'', CHR ''r'', CHR 0x22, CHR '':'', CHR 0x22]
         @ ''[circular reference]'' @ [CHR 0x22, CHR ''}'', CHR ''}'']
   \<and> serialize (example_config [OArray [VRef 1, VRef 1], OArray [VPrim (PNum ''1'')]] PosInf PosInf)
        (VRef 0)
       = [CHR ''['', CHR 0x22] @ ''[circular reference]'' @ [CHR 0x22] @ '',[1]]''"
proof -
  have "output_js (iterateStack (example_config [OObject [(''foo'', VRef 1)], OObject [(''bar'', VRef 0)]] PosInf PosInf)
      \<lparr>stack = [(Some ''bar'', Val (VRef 0), Some 0, 2), (Some ''foo'', Enc LEFT_BRACE, Some 0, 1),
                (None, Enc LEFT_BRACE, None, 0)],
       seen = {0, 1}, size_js = SizeNum 16, sizeLimitReached = False, output_js = ''}}'',
       emitted = []\<rparr>)
     = [CHR 0x22, CHR ''b'', CHR ''a'', CHR ''r'', CHR 0x22, CHR '':'', CHR 0x22]
       @ ''[circular reference]'' @ [CHR 0x22] @ ''}}''"
    using seen_payload_circular [where key = "Some ''bar''" and a = 0 and index = "Some 0"
        and depth = 2
        and rest = "[(Some ''foo'', Enc LEFT_BRACE, Some 0, 1), (None, Enc LEFT_BRACE, None, 0)]"
        and cfg = "example_config [OObject [(''foo'', VRef 1)], OObject [(''bar'', VRef 0)]] PosInf PosInf"
        and s = "\<lparr>stack = [(Some ''bar'', Val (VRef 0), Some 0, 2), (Some ''foo'', Enc LEFT_BRACE, Some 0, 1),
                (None, Enc LEFT_BRACE, None, 0)],
       seen = {0, 1}, size_js = SizeNum 16, sizeLimitReached = False, output_js = ''}}'',
       emitted = []\<rparr>"]
    by (simp add: example_config_def exceeds_def prefix_str_def truthy_index_def dquote_def)
  moreover have "serialize (example_config [OObject [(''foo'', VRef 1)], OObject [(''bar'', VRef 0)]] PosInf PosInf)
        (VRef 0)
       = [CHR ''{'', CHR 0x22, CHR ''f'', CHR ''o'', CHR ''o'', CHR 0x22, CHR '':'',
          CHR ''{'', CHR 0x22, CHR ''b'', CHR ''a'', CHR ''r'', CHR 0x22, CHR '':'', CHR 0x22]
         @ ''[circular reference]'' @ [CHR 0x22, CHR ''}'', CHR ''}'']"
    by code_simp
  moreover have "serialize (example_config [OArray [VRef 1, VRef 1], OArray [VPrim (PNum ''1'')]] PosInf PosInf)
        (VRef 0)
       = [CHR ''['', CHR 0x22] @ ''[circular reference]'' @ [CHR 0x22] @ '',[1]]''"
    by code_simp
  ultimately show ?thesis by blast
qed

section \<open>Dates, errors and patterns in \<open>seen\<close>\<close>

text \<open>
  C7, as stated, fails: an array that holds one Date twice. The element popped first
  (the second one) is rendered as its ISO text; the other finds the Date in \<open>seen\<close>.
\<close>

theorem date_twice_circular:
  "serialize (example_config [OArray [VRef 1, VRef 1], ODate ''2022-01-01T00:00:00.000Z'']
                PosInf PosInf) (VRef 0)
   = [CHR ''['', CHR 0x22] @ ''[circular reference]'' @ [CHR 0x22, CHR '','', CHR 0x22]
     @ ''2022-01-01T00:00:00.000Z'' @ [CHR 0x22, CHR '']'']"
  by code_simp

text \<open>
  C7, amended. \<^verbatim>\<open>seen.add(value)\<close> is executed for every object before its kind is
  looked at. A Date, Error or RegExp that is not in \<open>seen\<close> is rendered as its platform
  text, in quotes, and is put into \<open>seen\<close>; a frame that holds it when it is in \<open>seen\<close>
  is treated like any seen payload: 20 units are charged and, unless the size limit is
  reached, the string \<^verbatim>\<open>[circular reference]\<close> is rendered.
\<close>

theorem platform_object_guarded:
  assumes "stack s = (key, Val (VRef a), index, depth) # rest"
    and "heap_at cfg a = Some ob"
    and "ob = ODate t \<or> ob = OError t \<or> ob = ORegExp t"
  shows "(a \<notin> seen s \<longrightarrow>
            iterateStack cfg s
              = render key (TPrim (PStr t)) index (s\<lparr>stack := rest, seen := insert a (seen s)\<rparr>))
       \<and> (a \<in> seen s \<longrightarrow>
            iterateStack cfg s
              = (let s1 = addSize cfg 20 (s\<lparr>stack := rest\<rparr>) in
                 if \<not> sizeLimitReached s1
                 then render key (TPrim (PStr ''[circular reference]'')) index s1
                 else s1))"
  using assms by (auto simp add: iterateStack_seen iterateStack_unseen expand_def)

theorem platform_object_guarded_witness:
  "output_js (iterateStack (example_config [ODate ''2022-01-01T00:00:00.000Z''] PosInf PosInf)
                (initial (VRef 0)))
     = [CHR 0x22] @ ''2022-01-01T00:00:00.000Z'' @ [CHR 0x22]
   \<and> seen (iterateStack (example_config [ODate ''2022-01-01T00:00:00.000Z''] PosInf PosInf)
                (initial (VRef 0))) = {0}
   \<and> output_js (iterateStack (example_config [ODate ''2022-01-01T00:00:00.000Z''] PosInf PosInf)
                ((initial (VRef 0))\<lparr>seen := {0}\<rparr>))
     = [CHR 0x22] @ ''[circular reference]'' @ [CHR 0x22]"
  using platform_object_guarded [where s = "initial (VRef 0)" and key = None and a = 0
      and index = None and depth = 0 and rest = "[]" and ob = "ODate ''2022-01-01T00:00:00.000Z''"
      and t = "''2022-01-01T00:00:00.000Z''"
      and cfg = "example_config [ODate ''2022-01-01T00:00:00.000Z''] PosInf PosInf"]
    platform_object_guarded [where s = "(initial (VRef 0))\<lparr>seen := {0}\<rparr>" and key = None and a = 0
      and index = None and depth = 0 and rest = "[]" and ob = "ODate ''2022-01-01T00:00:00.000Z''"
      and t = "''2022-01-01T00:00:00.000Z''"
      and cfg = "example_config [ODate ''2022-01-01T00:00:00.000Z''] PosInf PosInf"]
  by (simp add: initial_def example_config_def heap_at_def render_str_def prefix_str_def
        token_str_def truthy_index_def dquote_def escape_def ESCAPE_REGEXP_def
        addSize_def set_size_def exceeds_def Let_def)

section \<open>The drivers compared\<close>

lemma iterate_done: "stack s = [] \<Longrightarrow> iterate cfg s = s"
  by (simp add: iterate.simps)

lemma iterate_step: "stack s \<noteq> [] \<Longrightarrow> iterate cfg s = iterate cfg (iterateStack cfg s)"
  by (simp add: iterate.simps [of cfg s])

lemma iterate_invariant:
  assumes "P s" and "\<forall>t. stack t \<noteq> [] \<longrightarrow> P t \<longrightarrow> P (iterateStack cfg t)"
  shows "P (iterate cfg s) \<and> stack (iterate cfg s) = []"
  using assms
proof (induction cfg s rule: iterate.induct)
  case (1 cfg s)
  show ?case
  proof (cases "stack s = []")
    case True
    then show ?thesis using "1.prems" by (simp add: iterate_done)
  next
    case False
    then have "P (iterateStack cfg s)" using "1.prems" by simp
    then show ?thesis using "1.IH" "1.prems"(2) False iterate_step [OF False] by simp
  qed
qed

lemma batchLoop_iterate: "iterate cfg (batchLoop cfg i s) = iterate cfg s"
proof (induction cfg i s rule: batchLoop.induct)
  case (1 cfg i s)
  show ?case
  proof (cases "stack s \<noteq> [] \<and> i < BATCH_SIZE")
    case True
    then have "batchLoop cfg i s = batchLoop cfg (i + 1) (iterateStack cfg s)"
      by (subst batchLoop.simps) simp
    then show ?thesis using "1.IH" True iterate_step [of s cfg] by simp
  next
    case False
    then have "batchLoop cfg i s = s" by (subst batchLoop.simps) auto
    then show ?thesis by simp
  qed
qed

lemma batchLoop_finished: "stack (batchLoop cfg i s) = [] \<Longrightarrow> batchLoop cfg i s = iterate cfg s"
  using batchLoop_iterate [of cfg i s] iterate_done [of "batchLoop cfg i s" cfg] by simp

lemma fireTimers_iterate: "fireTimers cfg s = Some (output_js (iterate cfg s))"
proof (induction cfg s rule: fireTimers.induct)
  case (1 cfg s)
  let ?s1 = "batchLoop cfg 0 s"
  show ?case
  proof (cases "stack ?s1 = []")
    case True
    then have "callbackStack cfg s = (?s1, Some (output_js ?s1), False)"
      by (simp add: callbackStack_def Let_def)
    then show ?thesis using batchLoop_finished [OF True]
      by (subst fireTimers.simps) simp
  next
    case False
    then have cb: "callbackStack cfg s = (?s1, None, True)"
      by (simp add: callbackStack_def Let_def)
    then have "fireTimers cfg ?s1 = Some (output_js (iterate cfg ?s1))"
      using "1.IH" [OF cb [symmetric] refl] by simp
    then show ?thesis using cb batchLoop_iterate [of cfg 0 s]
      by (subst fireTimers.simps) simp
  qed
qed

text \<open>
  C8, as stated, fails: with a callback the call does not return \<^verbatim>\<open>undefined\<close>. For
  the string \<^verbatim>\<open>"a"\<close> the traversal ends within the first batch: the callback is called
  before the call returns, and the call returns the same string.
\<close>

theorem callback_call_returns_string:
  "returned (smartSerialize (example_config [] PosInf PosInf) (VPrim (PStr ''a'')) True)
     = PStr [CHR 0x22, CHR ''a'', CHR 0x22]
   \<and> returned (smartSerialize (example_config [] PosInf PosInf) (VPrim (PStr ''a'')) True)
     \<noteq> PUndefined
   \<and> delivered (smartSerialize (example_config [] PosInf PosInf) (VPrim (PStr ''a'')) True)
     = Some [CHR 0x22, CHR ''a'', CHR 0x22]"
  by code_simp

text \<open>
  C8, amended. Without a callback the call runs the traversal to its end and returns
  the string. With a callback the call first runs one batch of at most 10000 steps and
  then returns the output built so far, a string. If the traversal has ended within that
  batch, the callback has been called with the complete string before the call returns,
  and the returned string is the complete one; otherwise nothing has been delivered, a
  timer is pending, and the timers deliver the complete string, the same one as the
  call without callback returns.
\<close>

theorem smartSerialize_result:
  "smartSerialize cfg object False
     = \<lparr>returned = PStr (serialize cfg object), delivered = None, timer = None\<rparr>
   \<and> smartSerialize cfg object True
     = (if stack (batchLoop cfg 0 (initial object)) = []
        then \<lparr>returned = PStr (serialize cfg object),
              delivered = Some (serialize cfg object), timer = None\<rparr>
        else \<lparr>returned = PStr (output_js (batchLoop cfg 0 (initial object))),
              delivered = None, timer = Some (batchLoop cfg 0 (initial object))\<rparr>)
   \<and> fireTimers cfg (batchLoop cfg 0 (initial object)) = Some (serialize cfg object)"
proof -
  let ?s1 = "batchLoop cfg 0 (initial object)"
  have "stack ?s1 = [] \<Longrightarrow> output_js ?s1 = serialize cfg object"
    using batchLoop_finished [of cfg 0 "initial object"] by (simp add: serialize_def)
  moreover have "fireTimers cfg ?s1 = Some (serialize cfg object)"
    by (simp add: fireTimers_iterate batchLoop_iterate serialize_def)
  ultimately show ?thesis
    by (simp add: smartSerialize_def callbackStack_def Let_def serialize_def)
qed

theorem smartSerialize_result_witness:
  "smartSerialize (example_config [OArray [VPrim (PNum ''1''), VPrim (PNum ''2'')]] PosInf PosInf)
      (VRef 0) True
     = \<lparr>returned = PStr ''[1,2]'', delivered = Some ''[1,2]'', timer = None\<rparr>
   \<and> smartSerialize (example_config [OArray [VPrim (PNum ''1''), VPrim (PNum ''2'')]] PosInf PosInf)
      (VRef 0) False
     = \<lparr>returned = PStr ''[1,2]'', delivered = None, timer = None\<rparr>"
proof -
  have st: "stack (batchLoop (example_config [OArray [VPrim (PNum ''1''), VPrim (PNum ''2'')]] PosInf PosInf)
              0 (initial (VRef 0))) = []"
    by code_simp
  have out: "serialize (example_config [OArray [VPrim (PNum ''1''), VPrim (PNum ''2'')]] PosInf PosInf)
              (VRef 0) = ''[1,2]''"
    by code_simp
  show ?thesis
    using smartSerialize_result
      [of "example_config [OArray [VPrim (PNum ''1''), VPrim (PNum ''2'')]] PosInf PosInf" "VRef 0"]
      st out
    by simp
qed

section \<open>Balanced output\<close>

text \<open>
  \<open>marks e s\<close> counts the calls of \<open>render\<close> with the symbol \<open>e\<close> so far, \<open>pending e s\<close>
  the frames on the stack that hold \<open>e\<close>.
\<close>

definition marks :: "enclosure \<Rightarrow> state \<Rightarrow> nat" where
  "marks e s = length (filter (\<lambda>(key, v, index). v = TEnc e) (emitted s))"

definition pending :: "enclosure \<Rightarrow> state \<Rightarrow> nat" where
  "pending e s = length (filter (\<lambda>(key, v, index, depth). v = Enc e) (stack s))"

definition emitted_text :: "state \<Rightarrow> string" where
  "emitted_text s = concat (map (\<lambda>(key, v, index). render_str key v index) (emitted s))"

lemma pending_pushElements [simp]:
  "pending e (pushElements cfg d i xs s) = pending e s"
  by (induction cfg d i xs s rule: pushElements.induct) (simp_all add: Let_def pending_def)

lemma pending_pushProperties [simp]:
  "pending e (pushProperties cfg d i kvs s) = pending e s"
  by (induction cfg d i kvs s rule: pushProperties.induct) (simp_all add: Let_def pending_def)

lemma pending_simps [simp]:
  "pending e (push (k, v, i, d) s) = (if v = Enc e then 1 else 0) + pending e s"
  "pending e (render k t i s) = pending e s"
  "pending e (addSize cfg n s) = pending e s"
  "pending e (leaf k t i cfg s) = pending e s"
  by (simp_all add: pending_def)

lemma marks_simps [simp]:
  "marks e (push f s) = marks e s"
  "marks e (render k t i s) = (if t = TEnc e then 1 else 0) + marks e s"
  "marks e (addSize cfg n s) = marks e s"
  "marks e (leaf k t i cfg s) = (if t = TEnc e then 1 else 0) + marks e s"
  "marks e (pushElements cfg d j xs s) = marks e s"
  "marks e (pushProperties cfg d j kvs s) = marks e s"
  by (simp_all add: marks_def)

definition balanced :: "state \<Rightarrow> bool" where
  "balanced s =
     (marks LEFT_BRACKET s + pending LEFT_BRACKET s = marks RIGHT_BRACKET s + pending RIGHT_BRACKET s
      \<and> marks LEFT_BRACE s + pending LEFT_BRACE s = marks RIGHT_BRACE s + pending RIGHT_BRACE s)"

lemma balanced_expand:
  assumes "marks LEFT_BRACKET s + pending LEFT_BRACKET s = marks RIGHT_BRACKET s + pending RIGHT_BRACKET s"
    and "marks LEFT_BRACE s + pending LEFT_BRACE s = marks RIGHT_BRACE s + pending RIGHT_BRACE s"
  shows "balanced (expand cfg key index depth ob s)"
  using assms by (cases ob) (simp_all add: expand_def Let_def balanced_def)

lemma balanced_step:
  assumes "stack s \<noteq> []" and "balanced s"
  shows "balanced (iterateStack cfg s)"
proof -
  obtain key v index depth rest where st: "stack s = (key, v, index, depth) # rest"
    using assms(1) by (cases "stack s") auto
  let ?s0 = "s\<lparr>stack := rest\<rparr>"
  have p: "pending e s = (if v = Enc e then 1 else 0) + pending e ?s0" for e
    using st by (simp add: pending_def)
  have m: "marks e ?s0 = marks e s" for e
    by (simp add: marks_def)
  show ?thesis
  proof (cases v)
    case (Enc e')
    then show ?thesis using st assms(2) p m
      by (cases e') (simp_all add: iterateStack_Enc balanced_def)
  next
    case (Val w)
    show ?thesis
    proof (cases w)
      case (VPrim q)
      then show ?thesis using st Val assms(2) p m
        by (simp add: iterateStack_VPrim balanced_def)
    next
      case (VFun n)
      then show ?thesis using st Val assms(2) p m
        by (simp add: iterateStack_VFun balanced_def)
    next
      case (VRef a)
      show ?thesis
      proof (cases "a \<in> seen s")
        case True
        then show ?thesis using st Val VRef assms(2) p m
          by (simp add: iterateStack_seen balanced_def Let_def)
      next
        case False
        let ?s1 = "s\<lparr>stack := rest, seen := insert a (seen s)\<rparr>"
        have "pending e ?s1 = pending e s" "marks e ?s1 = marks e s" for e
          using st Val by (simp_all add: pending_def marks_def)
        then have b: "balanced ?s1" using assms(2) by (simp add: balanced_def)
        show ?thesis
        proof (cases "heap_at cfg a")
          case None
          then show ?thesis using st Val VRef False b by (simp add: iterateStack_unseen)
        next
          case (Some ob)
          then show ?thesis using st Val VRef False b balanced_expand [of ?s1 cfg key index depth ob]
            by (simp add: iterateStack_unseen balanced_def)
        qed
      qed
    qed
  qed
qed

lemma output_expand:
  "output_js s = emitted_text s @ r \<Longrightarrow>
   output_js (expand cfg key index depth ob s) = emitted_text (expand cfg key index depth ob s) @ r"
  by (cases ob) (simp_all add: expand_def Let_def emitted_text_def)

lemma output_step:
  assumes "output_js s = emitted_text s @ r"
  shows "output_js (iterateStack cfg s) = emitted_text (iterateStack cfg s) @ r"
proof (cases "stack s")
  case Nil
  then show ?thesis using assms by (simp add: iterateStack_def)
next
  case (Cons f rest)
  obtain key v index depth where f: "f = (key, v, index, depth)" by (cases f) auto
  have e0: "output_js (s\<lparr>stack := rest\<rparr>) = emitted_text (s\<lparr>stack := rest\<rparr>) @ r"
    using assms by (simp add: emitted_text_def)
  have e1: "output_js (s\<lparr>stack := rest, seen := S\<rparr>) = emitted_text (s\<lparr>stack := rest, seen := S\<rparr>) @ r" for S
    using assms by (simp add: emitted_text_def)
  show ?thesis
    using Cons f assms output_expand [OF e1]
    by (auto simp add: iterateStack_def Let_def emitted_text_def
          split: payload.splits jsval.splits option.splits)
qed

text \<open>
  C1. Whatever the value, the heap and the limits, the string that \<open>serialize\<close> returns
  is the concatenation of the texts rendered, and among the calls of \<open>render\<close> there are
  as many with the symbol for \<^verbatim>\<open>[\<close> as with the symbol for \<^verbatim>\<open>]\<close>, and as many with the
  symbol for \<^verbatim>\<open>{\<close> as with the symbol for \<^verbatim>\<open>}\<close>.
\<close>

theorem serialize_balanced:
  "serialize cfg object = emitted_text (iterate cfg (initial object))
   \<and> marks LEFT_BRACKET (iterate cfg (initial object))
       = marks RIGHT_BRACKET (iterate cfg (initial object))
   \<and> marks LEFT_BRACE (iterate cfg (initial object))
       = marks RIGHT_BRACE (iterate cfg (initial object))"
proof -
  let ?f = "iterate cfg (initial object)"
  have "balanced (initial object)"
    by (simp add: balanced_def marks_def pending_def initial_def)
  then have "balanced ?f \<and> stack ?f = []"
    by (rule iterate_invariant) (simp add: balanced_step)
  then have b: "marks LEFT_BRACKET ?f = marks RIGHT_BRACKET ?f \<and> marks LEFT_BRACE ?f = marks RIGHT_BRACE ?f"
    by (auto simp add: balanced_def pending_def)
  have "output_js (initial object) = emitted_text (initial object) @ []"
    by (simp add: emitted_text_def initial_def)
  then have "output_js ?f = emitted_text ?f @ [] \<and> stack ?f = []"
    by (rule iterate_invariant) (simp add: output_step)
  then show ?thesis using b by (simp add: serialize_def)
qed

theorem serialize_balanced_witness:
  "serialize (example_config [OArray [VRef 1, VPrim (PStr ''[['')], OObject [(''k'', VRef 0)]] PosInf (Fin 30))
      (VRef 0)
     = emitted_text (iterate (example_config [OArray [VRef 1, VPrim (PStr ''[['')], OObject [(''k'', VRef 0)]] PosInf (Fin 30))
         (initial (VRef 0)))
   \<and> marks LEFT_BRACKET (iterate (example_config [OArray [VRef 1, VPrim (PStr ''[['')], OObject [(''k'', VRef 0)]] PosInf (Fin 30))
         (initial (VRef 0))) = 1
   \<and> marks RIGHT_BRACKET (iterate (example_config [OArray [VRef 1, VPrim (PStr ''[['')], OObject [(''k'', VRef 0)]] PosInf (Fin 30))
         (initial (VRef 0))) = 1"
proof -
  have "marks LEFT_BRACKET (iterate (example_config [OArray [VRef 1, VPrim (PStr ''[['')], OObject [(''k'', VRef 0)]] PosInf (Fin 30))
         (initial (VRef 0))) = 1"
    by code_simp
  then show ?thesis
    using serialize_balanced
      [of "example_config [OArray [VRef 1, VPrim (PStr ''[['')], OObject [(''k'', VRef 0)]] PosInf (Fin 30)" "VRef 0"]
    by simp
qed

section \<open>The size counter and the flag\<close>

text \<open>The state after at most \<open>n\<close> iterations of the loop of the synchronous driver.\<close>

primrec steps :: "config \<Rightarrow> nat \<Rightarrow> state \<Rightarrow> state" where
  "steps cfg 0 s = s"
| "steps cfg (Suc n) s = (if stack s = [] then s else steps cfg n (iterateStack cfg s))"

text \<open>
  \<open>size_le a b\<close>: \<open>b\<close> is a text, or both are numbers and \<open>a\<close> is at most \<open>b\<close>.
  \<open>grows s t\<close>: from \<open>s\<close> to \<open>t\<close> the size has not decreased in this sense and the flag
  has not been reset.
\<close>

fun size_le :: "sizeval \<Rightarrow> sizeval \<Rightarrow> bool" where
  "size_le (SizeNum m) (SizeNum n) = (m \<le> n)"
| "size_le (SizeStr t) (SizeNum n) = False"
| "size_le a (SizeStr u) = True"

definition grows :: "state \<Rightarrow> state \<Rightarrow> bool" where
  "grows s t = (size_le (size_js s) (size_js t) \<and> (sizeLimitReached s \<longrightarrow> sizeLimitReached t))"

lemma size_le_refl [simp]: "size_le a a"
  by (cases a) simp_all

lemma size_le_trans: "size_le a b \<Longrightarrow> size_le b c \<Longrightarrow> size_le a c"
  by (cases a; cases b; cases c) simp_all

lemma size_le_plus [simp]: "size_le a (plus_num a k)" "size_le a (plus_str a u)"
  by (cases a; simp)+

lemma grows_refl [simp]: "grows s s"
  by (simp add: grows_def)

lemma grows_trans: "grows s t \<Longrightarrow> grows t u \<Longrightarrow> grows s u"
  by (auto simp add: grows_def intro: size_le_trans)

lemma grows_set_size: "size_le (size_js s) z \<Longrightarrow> grows s (set_size cfg z s)"
  by (simp add: grows_def set_size_def)

lemma grows_measureSize [simp]: "grows s (measureSize cfg v s)"
  unfolding measureSize_def
  by (rule grows_set_size) (simp split: jsval.splits prim.splits option.splits obj.splits)

lemma grows_addSize [simp]: "grows s (addSize cfg n s)"
  unfolding addSize_def by (rule grows_set_size) simp

lemma grows_fields:
  "size_js t = size_js s \<Longrightarrow> sizeLimitReached t = sizeLimitReached s \<Longrightarrow> grows s t"
  by (simp add: grows_def)

lemma grows_render [simp]: "grows s (render k v i s)"
  by (simp add: grows_fields)

lemma grows_push [simp]: "grows s (push f s)"
  by (simp add: grows_fields)

lemma grows_leaf [simp]: "grows s (leaf k v i cfg s)"
  unfolding leaf_def Let_def
  by (auto intro: grows_trans [OF grows_render grows_addSize])

lemma grows_pushElements [simp]: "grows s (pushElements cfg d i xs s)"
proof (induction cfg d i xs s rule: pushElements.induct)
  case (1 cfg depth i s)
  then show ?case by simp
next
  case (2 cfg depth i x xs s)
  let ?s1 = "measureSize cfg x s"
  let ?s2 = "if \<not> sizeLimitReached ?s1 then push (None, Val x, Some i, depth + 1) ?s1 else ?s1"
  have a: "grows s ?s1" by (rule grows_measureSize)
  have b: "grows ?s1 ?s2" by (cases "sizeLimitReached ?s1") simp_all
  have c: "grows ?s2 (pushElements cfg depth (i + 1) xs ?s2)"
    by (rule "2.IH" [OF refl refl])
  have d: "pushElements cfg depth i (x # xs) s = pushElements cfg depth (i + 1) xs ?s2"
    by (simp only: pushElements.simps Let_def)
  show ?case
    unfolding d by (rule grows_trans [OF grows_trans [OF a b] c])
qed

lemma grows_pushProperties [simp]: "grows s (pushProperties cfg d i kvs s)"
proof (induction cfg d i kvs s rule: pushProperties.induct)
  case (1 cfg depth i s)
  then show ?case by simp
next
  case (2 cfg depth i k x kvs s)
  let ?s1 = "addSize cfg (length k + 3) s"
  let ?s2 = "if \<not> sizeLimitReached ?s1 then measureSize cfg x ?s1 else ?s1"
  let ?s3 = "if \<not> sizeLimitReached ?s2 then push (Some k, Val x, Some i, depth + 1) ?s2 else ?s2"
  have a: "grows s ?s1" by (rule grows_addSize)
  have b: "grows ?s1 ?s2" by (cases "sizeLimitReached ?s1") simp_all
  have c: "grows ?s2 ?s3" by (cases "sizeLimitReached ?s2") simp_all
  have e: "grows ?s3 (pushProperties cfg depth (i + 1) kvs ?s3)"
    by (rule "2.IH" [OF refl refl refl])
  have d: "pushProperties cfg depth i ((k, x) # kvs) s = pushProperties cfg depth (i + 1) kvs ?s3"
    by (simp only: pushProperties.simps Let_def)
  show ?case
    unfolding d by (rule grows_trans [OF grows_trans [OF grows_trans [OF a b] c] e])
qed

lemma grows_expand [simp]: "grows s (expand cfg key index depth ob s)"
proof (cases ob)
  case (OArray xs)
  let ?s1 = "addSize cfg 2 s"
  let ?A = "push (None, Enc RIGHT_BRACKET, None, depth)
              (pushElements cfg depth 0 xs (push (key, Enc LEFT_BRACKET, index, depth) ?s1))"
  let ?B = "render key (TEnc BRACKETS) index ?s1"
  have "grows s (push (key, Enc LEFT_BRACKET, index, depth) ?s1)"
    by (rule grows_trans [OF grows_addSize grows_push])
  then have "grows s (pushElements cfg depth 0 xs (push (key, Enc LEFT_BRACKET, index, depth) ?s1))"
    by (rule grows_trans [OF _ grows_pushElements])
  then have a: "grows s ?A"
    by (rule grows_trans [OF _ grows_push])
  have b: "grows s ?B"
    by (rule grows_trans [OF grows_addSize grows_render])
  have "expand cfg key index depth ob s = (if may_expand cfg depth ?s1 then ?A else ?B)"
    using OArray by (simp add: expand_def Let_def)
  then show ?thesis using a b by (cases "may_expand cfg depth ?s1") simp_all
next
  case (OObject kvs)
  let ?s1 = "addSize cfg 2 s"
  let ?A = "push (None, Enc RIGHT_BRACE, None, depth)
              (pushProperties cfg depth 0 kvs (push (key, Enc LEFT_BRACE, index, depth) ?s1))"
  let ?B = "render key (TEnc BRACES) index ?s1"
  have "grows s (push (key, Enc LEFT_BRACE, index, depth) ?s1)"
    by (rule grows_trans [OF grows_addSize grows_push])
  then have "grows s (pushProperties cfg depth 0 kvs (push (key, Enc LEFT_BRACE, index, depth) ?s1))"
    by (rule grows_trans [OF _ grows_pushProperties])
  then have a: "grows s ?A"
    by (rule grows_trans [OF _ grows_push])
  have b: "grows s ?B"
    by (rule grows_trans [OF grows_addSize grows_render])
  have "expand cfg key index depth ob s
          = (if kvs \<noteq> [] then (if may_expand cfg depth ?s1 then ?A else ?B) else s)"
    using OObject by (simp add: expand_def Let_def)
  then show ?thesis using a b
    by (cases "kvs = []"; cases "may_expand cfg depth ?s1") simp_all
qed (simp_all add: expand_def)

lemma grows_step: "grows s (iterateStack cfg s)"
proof (cases "stack s")
  case Nil
  then show ?thesis by (simp add: iterateStack_def)
next
  case (Cons f rest)
  obtain key v index depth where f: "f = (key, v, index, depth)" by (cases f) auto
  have g0: "grows s (s\<lparr>stack := rest\<rparr>)" by (simp add: grows_fields)
  have g1: "grows s (s\<lparr>stack := rest, seen := S\<rparr>)" for S by (simp add: grows_fields)
  show ?thesis
  proof (cases v)
    case (Enc e)
    then show ?thesis using Cons f grows_trans [OF g0 grows_leaf]
      by (simp add: iterateStack_Enc)
  next
    case (Val w)
    show ?thesis
    proof (cases w)
      case (VPrim q)
      then show ?thesis using Cons f Val grows_trans [OF g0 grows_leaf]
        by (simp add: iterateStack_VPrim)
    next
      case (VFun n)
      then show ?thesis using Cons f Val grows_trans [OF g0 grows_render]
        by (simp add: iterateStack_VFun)
    next
      case (VRef a)
      show ?thesis
      proof (cases "a \<in> seen s")
        case True
        have "grows s (addSize cfg 20 (s\<lparr>stack := rest\<rparr>))"
          using grows_trans [OF g0 grows_addSize] .
        moreover have "grows s (render key (TPrim (PStr ''[circular reference]'')) index
                                 (addSize cfg 20 (s\<lparr>stack := rest\<rparr>)))"
          using grows_trans [OF calculation grows_render] .
        ultimately show ?thesis using Cons f Val VRef True
          by (simp add: iterateStack_seen Let_def)
      next
        case False
        then show ?thesis using Cons f Val VRef g1 grows_trans [OF g1 grows_expand]
          by (simp add: iterateStack_unseen split: option.splits)
      qed
    qed
  qed
qed

lemma grows_steps: "grows s (steps cfg n s)"
proof (induction n arbitrary: s)
  case 0
  then show ?case by simp
next
  case (Suc n)
  then show ?case using grows_trans [OF grows_step [of s cfg] Suc [of "iterateStack cfg s"]]
    by simp
qed

lemma steps_add: "steps cfg (i + j) s = steps cfg j (steps cfg i s)"
proof (induction i arbitrary: s)
  case 0
  then show ?case by simp
next
  case (Suc i)
  have "stack s = [] \<Longrightarrow> steps cfg j s = s" by (cases j) simp_all
  then show ?case using Suc by simp
qed

lemma limit_reached_no_push:
  assumes "sizeLimitReached s"
  shows "stack (iterateStack cfg s) = tl (stack s)"
proof (cases "stack s")
  case Nil
  then show ?thesis by (simp add: iterateStack_def)
next
  case (Cons f rest)
  obtain key v index depth where f: "f = (key, v, index, depth)" by (cases f) auto
  have ex: "stack (expand cfg key index depth ob (s\<lparr>stack := rest, seen := S\<rparr>)) = rest" for ob S
    using assms grows_addSize [of "s\<lparr>stack := rest, seen := S\<rparr>" cfg 2]
    by (cases ob) (simp_all add: expand_def Let_def may_expand_def grows_def)
  show ?thesis
    using Cons f ex
    by (auto simp add: iterateStack_def Let_def split: payload.splits jsval.splits option.splits)
qed

text \<open>
  C3, as stated, fails: the array \<^verbatim>\<open>[{}, "aaaa"]\<close> with \<open>maxSize = 5\<close>. The flag is set
  while the array is expanded. Two steps later the empty object is popped; it is not in
  \<open>seen\<close>, and nothing is rendered for it: the result is \<^verbatim>\<open>[]\<close>, without \<^verbatim>\<open>{}\<close>.
\<close>

theorem limit_reached_empty_object_vanishes:
  "sizeLimitReached
     (steps (example_config [OArray [VRef 1, VPrim (PStr ''aaaa'')], OObject []] PosInf (Fin 5)) 2
        (initial (VRef 0)))
   \<and> stack
       (steps (example_config [OArray [VRef 1, VPrim (PStr ''aaaa'')], OObject []] PosInf (Fin 5)) 2
          (initial (VRef 0)))
     = [(None, Val (VRef 1), Some 0, 1), (None, Enc LEFT_BRACKET, None, 0)]
   \<and> 1 \<notin> seen
       (steps (example_config [OArray [VRef 1, VPrim (PStr ''aaaa'')], OObject []] PosInf (Fin 5)) 2
          (initial (VRef 0)))
   \<and> output_js
       (steps (example_config [OArray [VRef 1, VPrim (PStr ''aaaa'')], OObject []] PosInf (Fin 5)) 3
          (initial (VRef 0)))
     = output_js
       (steps (example_config [OArray [VRef 1, VPrim (PStr ''aaaa'')], OObject []] PosInf (Fin 5)) 2
          (initial (VRef 0)))
   \<and> serialize (example_config [OArray [VRef 1, VPrim (PStr ''aaaa'')], OObject []] PosInf (Fin 5))
        (VRef 0) = ''[]''"
  by code_simp

lemma flag_kept: "grows s t \<Longrightarrow> sizeLimitReached s \<Longrightarrow> sizeLimitReached t"
  by (simp add: grows_def)

lemma pushElements_flagged:
  "sizeLimitReached s \<Longrightarrow> stack (pushElements cfg d i xs s) = stack s"
proof (induction xs arbitrary: i s)
  case Nil
  then show ?case by simp
next
  case (Cons x xs)
  have f: "sizeLimitReached (measureSize cfg x s)"
    using flag_kept [OF grows_measureSize Cons.prems] .
  show ?case using f Cons.IH [OF f] by (simp add: Let_def)
qed

lemma pushProperties_flagged:
  "sizeLimitReached s \<Longrightarrow> stack (pushProperties cfg d i kvs s) = stack s"
proof (induction kvs arbitrary: i s)
  case Nil
  then show ?case by simp
next
  case (Cons kx kvs)
  obtain k x where kx: "kx = (k, x)" by (cases kx) auto
  have f: "sizeLimitReached (addSize cfg (length k + 3) s)"
    using flag_kept [OF grows_addSize Cons.prems] .
  show ?case using f Cons.IH [OF f] kx by (simp add: Let_def)
qed

text \<open>
  C3, amended. Along the steps of one call the flag, once set, stays set, and as long
  as the size is a number it does not decrease. When the flag is set at the start of a
  step, the step pushes no frame; a frame with an array that is not in \<open>seen\<close> renders
  \<^verbatim>\<open>[]\<close>, a frame with an object that is not in \<open>seen\<close> renders \<^verbatim>\<open>{}\<close> if the object
  has a key and nothing if it has none. Inside the step that expands a container, the
  loop over the children pushes no child once the flag is set: the child whose estimate
  (for a property also the estimate of its key) sets the flag is not pushed, nor is any
  child after it. The step still ends by pushing the closing symbol on top of whatever
  the loop has pushed.
\<close>

theorem size_limit_sticky:
  "(sizeLimitReached (steps cfg i s) \<longrightarrow> sizeLimitReached (steps cfg (i + j) s))
   \<and> (size_js (steps cfg i s) = SizeNum m \<and> size_js (steps cfg (i + j) s) = SizeNum n \<longrightarrow> m \<le> n)
   \<and> (sizeLimitReached s \<longrightarrow> stack (iterateStack cfg s) = tl (stack s))
   \<and> (sizeLimitReached s \<and> stack s = (key, Val (VRef a), index, depth) # rest \<and> a \<notin> seen s \<longrightarrow>
        (heap_at cfg a = Some (OArray xs) \<longrightarrow>
           output_js (iterateStack cfg s) = prefix_str key index @ ''[]'' @ output_js s)
      \<and> (heap_at cfg a = Some (OObject kvs) \<longrightarrow>
           output_js (iterateStack cfg s)
             = (if kvs = [] then output_js s else prefix_str key index @ ''{}'' @ output_js s)))
   \<and> (sizeLimitReached t \<longrightarrow>
        stack (pushElements cfg d i0 ys t) = stack t
        \<and> stack (pushProperties cfg d i0 ps t) = stack t)
   \<and> (sizeLimitReached (measureSize cfg x t) \<longrightarrow>
        stack (pushElements cfg d i0 (x # ys) t) = stack t)
   \<and> (\<not> sizeLimitReached (measureSize cfg x t) \<longrightarrow>
        pushElements cfg d i0 (x # ys) t
          = pushElements cfg d (i0 + 1) ys (push (None, Val x, Some i0, d + 1) (measureSize cfg x t)))
   \<and> (sizeLimitReached (addSize cfg (length k + 3) t)
        \<or> sizeLimitReached (measureSize cfg x (addSize cfg (length k + 3) t)) \<longrightarrow>
        stack (pushProperties cfg d i0 ((k, x) # ps) t) = stack t)
   \<and> (\<not> sizeLimitReached (measureSize cfg x (addSize cfg (length k + 3) t)) \<longrightarrow>
        pushProperties cfg d i0 ((k, x) # ps) t
          = pushProperties cfg d (i0 + 1) ps
              (push (Some k, Val x, Some i0, d + 1) (measureSize cfg x (addSize cfg (length k + 3) t))))
   \<and> (stack s = (key, Val (VRef a), index, depth) # rest \<and> a \<notin> seen s
        \<and> may_expand cfg depth (addSize cfg 2 (s\<lparr>stack := rest, seen := insert a (seen s)\<rparr>)) \<longrightarrow>
        (heap_at cfg a = Some (OArray xs) \<longrightarrow>
           stack (iterateStack cfg s)
             = (None, Enc RIGHT_BRACKET, None, depth)
               # stack (pushElements cfg depth 0 xs
                   (push (key, Enc LEFT_BRACKET, index, depth)
                     (addSize cfg 2 (s\<lparr>stack := rest, seen := insert a (seen s)\<rparr>)))))
      \<and> (heap_at cfg a = Some (OObject kvs) \<and> kvs \<noteq> [] \<longrightarrow>
           stack (iterateStack cfg s)
             = (None, Enc RIGHT_BRACE, None, depth)
               # stack (pushProperties cfg depth 0 kvs
                   (push (key, Enc LEFT_BRACE, index, depth)
                     (addSize cfg 2 (s\<lparr>stack := rest, seen := insert a (seen s)\<rparr>))))))"
proof -
  have g: "grows (steps cfg i s) (steps cfg (i + j) s)"
    by (simp add: steps_add grows_steps)
  have flag: "sizeLimitReached (steps cfg i s) \<longrightarrow> sizeLimitReached (steps cfg (i + j) s)"
    using g by (simp add: grows_def)
  have sz: "size_js (steps cfg i s) = SizeNum m \<and> size_js (steps cfg (i + j) s) = SizeNum n \<longrightarrow> m \<le> n"
    using g by (auto simp add: grows_def)
  have collapse: "\<not> may_expand cfg depth (addSize cfg 2 u)" if "sizeLimitReached u" for u
    using that grows_addSize [of u cfg 2] by (simp add: may_expand_def grows_def)
  have arr: "output_js (iterateStack cfg s) = prefix_str key index @ ''[]'' @ output_js s"
    if "sizeLimitReached s" "stack s = (key, Val (VRef a), index, depth) # rest" "a \<notin> seen s"
       "heap_at cfg a = Some (OArray xs)"
    using that collapse [of "s\<lparr>stack := rest, seen := insert a (seen s)\<rparr>"]
    by (simp add: iterateStack_unseen expand_def Let_def render_str_def token_str_def getEnclosure_def)
  have ob: "output_js (iterateStack cfg s)
             = (if kvs = [] then output_js s else prefix_str key index @ ''{}'' @ output_js s)"
    if "sizeLimitReached s" "stack s = (key, Val (VRef a), index, depth) # rest" "a \<notin> seen s"
       "heap_at cfg a = Some (OObject kvs)"
    using that collapse [of "s\<lparr>stack := rest, seen := insert a (seen s)\<rparr>"]
    by (simp add: iterateStack_unseen expand_def Let_def render_str_def token_str_def getEnclosure_def)
  have old: "(sizeLimitReached (steps cfg i s) \<longrightarrow> sizeLimitReached (steps cfg (i + j) s))
   \<and> (size_js (steps cfg i s) = SizeNum m \<and> size_js (steps cfg (i + j) s) = SizeNum n \<longrightarrow> m \<le> n)
   \<and> (sizeLimitReached s \<longrightarrow> stack (iterateStack cfg s) = tl (stack s))
   \<and> (sizeLimitReached s \<and> stack s = (key, Val (VRef a), index, depth) # rest \<and> a \<notin> seen s \<longrightarrow>
        (heap_at cfg a = Some (OArray xs) \<longrightarrow>
           output_js (iterateStack cfg s) = prefix_str key index @ ''[]'' @ output_js s)
      \<and> (heap_at cfg a = Some (OObject kvs) \<longrightarrow>
           output_js (iterateStack cfg s)
             = (if kvs = [] then output_js s else prefix_str key index @ ''{}'' @ output_js s)))"
    using flag sz limit_reached_no_push arr ob by blast
  have loop: "sizeLimitReached t \<longrightarrow>
        stack (pushElements cfg d i0 ys t) = stack t
        \<and> stack (pushProperties cfg d i0 ps t) = stack t"
    by (simp add: pushElements_flagged pushProperties_flagged)
  have tripE: "sizeLimitReached (measureSize cfg x t) \<longrightarrow>
        stack (pushElements cfg d i0 (x # ys) t) = stack t"
    by (simp add: Let_def pushElements_flagged)
  have goE: "\<not> sizeLimitReached (measureSize cfg x t) \<longrightarrow>
        pushElements cfg d i0 (x # ys) t
          = pushElements cfg d (i0 + 1) ys (push (None, Val x, Some i0, d + 1) (measureSize cfg x t))"
    by (simp add: Let_def)
  have mono: "sizeLimitReached (addSize cfg (length k + 3) t) \<Longrightarrow>
        sizeLimitReached (measureSize cfg x (addSize cfg (length k + 3) t))"
    using flag_kept [OF grows_measureSize] .
  have tripP: "sizeLimitReached (addSize cfg (length k + 3) t)
        \<or> sizeLimitReached (measureSize cfg x (addSize cfg (length k + 3) t)) \<longrightarrow>
        stack (pushProperties cfg d i0 ((k, x) # ps) t) = stack t"
    by (cases "sizeLimitReached (addSize cfg (length k + 3) t)")
       (simp_all add: Let_def pushProperties_flagged)
  have goP: "\<not> sizeLimitReached (measureSize cfg x (addSize cfg (length k + 3) t)) \<longrightarrow>
        pushProperties cfg d i0 ((k, x) # ps) t
          = pushProperties cfg d (i0 + 1) ps
              (push (Some k, Val x, Some i0, d + 1) (measureSize cfg x (addSize cfg (length k + 3) t)))"
    using mono by (auto simp add: Let_def)
  have ex: "stack s = (key, Val (VRef a), index, depth) # rest \<and> a \<notin> seen s
        \<and> may_expand cfg depth (addSize cfg 2 (s\<lparr>stack := rest, seen := insert a (seen s)\<rparr>)) \<longrightarrow>
        (heap_at cfg a = Some (OArray xs) \<longrightarrow>
           stack (iterateStack cfg s)
             = (None, Enc RIGHT_BRACKET, None, depth)
               # stack (pushElements cfg depth 0 xs
                   (push (key, Enc LEFT_BRACKET, index, depth)
                     (addSize cfg 2 (s\<lparr>stack := rest, seen := insert a (seen s)\<rparr>)))))
      \<and> (heap_at cfg a = Some (OObject kvs) \<and> kvs \<noteq> [] \<longrightarrow>
           stack (iterateStack cfg s)
             = (None, Enc RIGHT_BRACE, None, depth)
               # stack (pushProperties cfg depth 0 kvs
                   (push (key, Enc LEFT_BRACE, index, depth)
                     (addSize cfg 2 (s\<lparr>stack := rest, seen := insert a (seen s)\<rparr>)))))"
    by (simp add: iterateStack_unseen expand_def Let_def)
  show ?thesis
    using old loop tripE goE tripP goP ex by blast
qed

theorem size_limit_sticky_witness:
  "sizeLimitReached
     (steps (example_config [OArray [VRef 1, VRef 2, VPrim (PStr ''aaaa'')], OObject [], OArray []] PosInf (Fin 5)) 1
        (initial (VRef 0)))
   \<and> sizeLimitReached
     (steps (example_config [OArray [VRef 1, VRef 2, VPrim (PStr ''aaaa'')], OObject [], OArray []] PosInf (Fin 5)) 3
        (initial (VRef 0)))
   \<and> size_js
     (steps (example_config [OArray [VRef 1, VRef 2, VPrim (PStr ''aaaa'')], OObject [], OArray []] PosInf (Fin 5)) 0
        (initial (VRef 0))) = SizeNum 0
   \<and> size_js
     (steps (example_config [OArray [VRef 1, VRef 2, VPrim (PStr ''aaaa'')], OObject [], OArray []] PosInf (Fin 5)) 1
        (initial (VRef 0))) = SizeNum 8
   \<and> (0::nat) \<le> 8
   \<and> stack
     (steps (example_config [OArray [VRef 1, VRef 2, VPrim (PStr ''aaaa'')], OObject [], OArray []] PosInf (Fin 5)) 2
        (initial (VRef 0)))
     = [(None, Val (VRef 2), Some 1, 1), (None, Val (VRef 1), Some 0, 1), (None, Enc LEFT_BRACKET, None, 0)]
   \<and> output_js
     (steps (example_config [OArray [VRef 1, VRef 2, VPrim (PStr ''aaaa'')], OObject [], OArray []] PosInf (Fin 5)) 3
        (initial (VRef 0))) = '',[]]''
   \<and> stack
     (steps (example_config [OArray [VRef 1, VRef 2, VPrim (PStr ''aaaa'')], OObject [], OArray []] PosInf (Fin 5)) 3
        (initial (VRef 0)))
     = [(None, Val (VRef 1), Some 0, 1), (None, Enc LEFT_BRACKET, None, 0)]
   \<and> stack
     (iterateStack (example_config [OArray [VRef 1, VRef 2, VPrim (PStr ''aaaa'')], OObject [], OArray []] PosInf (Fin 5))
        (initial (VRef 0)))
     = [(None, Enc RIGHT_BRACKET, None, 0), (None, Val (VRef 2), Some 1, 1),
        (None, Val (VRef 1), Some 0, 1), (None, Enc LEFT_BRACKET, None, 0)]
   \<and> stack
     (pushElements (example_config [OArray [VRef 1, VRef 2, VPrim (PStr ''aaaa'')], OObject [], OArray []] PosInf (Fin 5))
        0 0 [VPrim (PStr ''aaaa''), VPrim PNull] ((initial (VRef 0))\<lparr>size_js := SizeNum 2\<rparr>))
     = [(None, Val (VRef 0), None, 0)]
   \<and> stack
     (pushElements (example_config [OArray [VRef 1, VRef 2, VPrim (PStr ''aaaa'')], OObject [], OArray []] PosInf (Fin 5))
        0 0 [VPrim PNull, VPrim (PStr ''aaaa''), VPrim PNull] ((initial (VRef 0))\<lparr>size_js := SizeNum 0\<rparr>))
     = [(None, Val (VPrim PNull), Some 0, 1), (None, Val (VRef 0), None, 0)]
   \<and> stack
     (pushProperties (example_config [OArray [VRef 1, VRef 2, VPrim (PStr ''aaaa'')], OObject [], OArray []] PosInf (Fin 5))
        0 0 [(''kkkk'', VPrim PNull), (''b'', VPrim PNull)] ((initial (VRef 0))\<lparr>size_js := SizeNum 2\<rparr>))
     = [(None, Val (VRef 0), None, 0)]
   \<and> stack
     (pushProperties (example_config [OArray [VRef 1, VRef 2, VPrim (PStr ''aaaa'')], OObject [], OArray []] PosInf (Fin 5))
        0 0 [(''a'', VPrim (PStr ''aaaa'')), (''b'', VPrim PNull)] ((initial (VRef 0))\<lparr>size_js := SizeNum 0\<rparr>))
     = [(None, Val (VRef 0), None, 0)]
   \<and> stack
     (pushElements (example_config [OArray [VRef 1, VRef 2, VPrim (PStr ''aaaa'')], OObject [], OArray []] PosInf (Fin 5))
        0 0 [VPrim PNull] ((initial (VRef 0))\<lparr>sizeLimitReached := True\<rparr>))
     = [(None, Val (VRef 0), None, 0)]
   \<and> stack
     (pushProperties (example_config [OArray [VRef 1, VRef 2, VPrim (PStr ''aaaa'')], OObject [], OArray []] PosInf (Fin 5))
        0 0 [(''a'', VPrim PNull)] ((initial (VRef 0))\<lparr>sizeLimitReached := True\<rparr>))
     = [(None, Val (VRef 0), None, 0)]"
proof -
  let ?c = "example_config [OArray [VRef 1, VRef 2, VPrim (PStr ''aaaa'')], OObject [], OArray []] PosInf (Fin 5)"
  let ?s2 = "steps ?c 2 (initial (VRef 0))"
  have f1: "sizeLimitReached (steps ?c 1 (initial (VRef 0)))" by code_simp
  have z0: "size_js (steps ?c 0 (initial (VRef 0))) = SizeNum 0" by code_simp
  have z1: "size_js (steps ?c 1 (initial (VRef 0))) = SizeNum 8" by code_simp
  have f2: "sizeLimitReached ?s2" by code_simp
  have st2: "stack ?s2 = [(None, Val (VRef 2), Some 1, 1), (None, Val (VRef 1), Some 0, 1),
                         (None, Enc LEFT_BRACKET, None, 0)]" by code_simp
  have ns: "2 \<notin> seen ?s2" by code_simp
  have h: "heap_at ?c 2 = Some (OArray [])" by code_simp
  have o2: "output_js ?s2 = '']''" by code_simp
  have s3: "steps ?c 3 (initial (VRef 0)) = iterateStack ?c ?s2"
    using steps_add [of ?c 2 1 "initial (VRef 0)"] st2 by simp
  have e: "(1::nat) + 2 = 3" by simp
  have a: "sizeLimitReached (steps ?c 3 (initial (VRef 0)))"
    using conjunct1 [OF size_limit_sticky [where cfg = ?c and i = 1 and s = "initial (VRef 0)" and j = 2]]
      f1
    unfolding e by (rule mp)
  have z1': "size_js (steps ?c (0 + 1) (initial (VRef 0))) = SizeNum 8" by code_simp
  have b: "(0::nat) \<le> 8"
    using conjunct1 [OF conjunct2 [OF size_limit_sticky [where cfg = ?c and i = 0
        and s = "initial (VRef 0)" and j = 1 and m = 0 and n = 8]]] z0 z1'
    by blast
  have c: "stack (iterateStack ?c ?s2) = tl (stack ?s2)"
    using conjunct1 [OF conjunct2 [OF conjunct2 [OF size_limit_sticky [where cfg = ?c and s = ?s2]]]]
      f2
    by (rule mp)
  have d: "output_js (iterateStack ?c ?s2) = prefix_str None (Some 1) @ ''[]'' @ output_js ?s2"
    using conjunct2 [OF conjunct2 [OF conjunct2 [OF size_limit_sticky [where cfg = ?c and s = ?s2
        and key = None and a = 2 and index = "Some 1" and depth = 1
        and rest = "[(None, Val (VRef 1), Some 0, 1), (None, Enc LEFT_BRACKET, None, 0)]"
        and xs = "[]"]]]]
      f2 st2 ns h
    by blast
  let ?i = "initial (VRef 0)"
  let ?t2 = "?i\<lparr>size_js := SizeNum 2\<rparr>"
  let ?t0 = "?i\<lparr>size_js := SizeNum 0\<rparr>"
  let ?tf = "?i\<lparr>sizeLimitReached := True\<rparr>"
  have sti: "stack ?i = [(None, Val (VRef 0), None, 0)]" by (simp add: initial_def)
  have st_t: "stack ?t2 = [(None, Val (VRef 0), None, 0)]" "stack ?t0 = [(None, Val (VRef 0), None, 0)]"
      "stack ?tf = [(None, Val (VRef 0), None, 0)]"
    by (simp_all add: initial_def)
  have h0: "heap_at ?c 0 = Some (OArray [VRef 1, VRef 2, VPrim (PStr ''aaaa'')])" by code_simp
  have ns0: "0 \<notin> seen ?i" by code_simp
  have me: "may_expand ?c 0 (addSize ?c 2 (?i\<lparr>stack := [], seen := insert 0 (seen ?i)\<rparr>))"
    by code_simp
  have pe: "stack (pushElements ?c 0 0 [VRef 1, VRef 2, VPrim (PStr ''aaaa'')]
                (push (None, Enc LEFT_BRACKET, None, 0)
                   (addSize ?c 2 (?i\<lparr>stack := [], seen := insert 0 (seen ?i)\<rparr>))))
            = [(None, Val (VRef 2), Some 1, 1), (None, Val (VRef 1), Some 0, 1),
               (None, Enc LEFT_BRACKET, None, 0)]"
    by code_simp
  have w1: "stack (iterateStack ?c ?i)
     = (None, Enc RIGHT_BRACKET, None, 0)
       # stack (pushElements ?c 0 0 [VRef 1, VRef 2, VPrim (PStr ''aaaa'')]
                (push (None, Enc LEFT_BRACKET, None, 0)
                   (addSize ?c 2 (?i\<lparr>stack := [], seen := insert 0 (seen ?i)\<rparr>))))"
    using size_limit_sticky [where cfg = ?c and s = ?i and key = None and a = 0 and index = None
        and depth = 0 and rest = "[]" and xs = "[VRef 1, VRef 2, VPrim (PStr ''aaaa'')]"]
      sti ns0 me h0
    by blast
  have t1: "sizeLimitReached (measureSize ?c (VPrim (PStr ''aaaa'')) ?t2)" by code_simp
  have w2: "stack (pushElements ?c 0 0 [VPrim (PStr ''aaaa''), VPrim PNull] ?t2) = stack ?t2"
    using size_limit_sticky [where cfg = ?c and t = ?t2 and x = "VPrim (PStr ''aaaa'')"
        and ys = "[VPrim PNull]" and d = 0 and i0 = 0] t1
    by blast
  have t3: "\<not> sizeLimitReached (measureSize ?c (VPrim PNull) ?t0)" by code_simp
  have r3: "stack (pushElements ?c 0 (0 + 1) [VPrim (PStr ''aaaa''), VPrim PNull]
                (push (None, Val (VPrim PNull), Some 0, 0 + 1) (measureSize ?c (VPrim PNull) ?t0)))
            = [(None, Val (VPrim PNull), Some 0, 1), (None, Val (VRef 0), None, 0)]"
    by code_simp
  have w3: "pushElements ?c 0 0 [VPrim PNull, VPrim (PStr ''aaaa''), VPrim PNull] ?t0
            = pushElements ?c 0 (0 + 1) [VPrim (PStr ''aaaa''), VPrim PNull]
                (push (None, Val (VPrim PNull), Some 0, 0 + 1) (measureSize ?c (VPrim PNull) ?t0))"
    using size_limit_sticky [where cfg = ?c and t = ?t0 and x = "VPrim PNull"
        and ys = "[VPrim (PStr ''aaaa''), VPrim PNull]" and d = 0 and i0 = 0] t3
    by blast
  have t4: "sizeLimitReached (addSize ?c (length ''kkkk'' + 3) ?t2)" by code_simp
  have w4: "stack (pushProperties ?c 0 0 [(''kkkk'', VPrim PNull), (''b'', VPrim PNull)] ?t2) = stack ?t2"
    using size_limit_sticky [where cfg = ?c and t = ?t2 and k = "''kkkk''" and x = "VPrim PNull"
        and ps = "[(''b'', VPrim PNull)]" and d = 0 and i0 = 0] t4
    by blast
  have t5: "sizeLimitReached (measureSize ?c (VPrim (PStr ''aaaa'')) (addSize ?c (length ''a'' + 3) ?t0))"
    by code_simp
  have w5: "stack (pushProperties ?c 0 0 [(''a'', VPrim (PStr ''aaaa'')), (''b'', VPrim PNull)] ?t0) = stack ?t0"
    using size_limit_sticky [where cfg = ?c and t = ?t0 and k = "''a''" and x = "VPrim (PStr ''aaaa'')"
        and ps = "[(''b'', VPrim PNull)]" and d = 0 and i0 = 0] t5
    by blast
  have t6: "sizeLimitReached ?tf" by simp
  have w6: "stack (pushElements ?c 0 0 [VPrim PNull] ?tf) = stack ?tf
            \<and> stack (pushProperties ?c 0 0 [(''a'', VPrim PNull)] ?tf) = stack ?tf"
    using size_limit_sticky [where cfg = ?c and t = ?tf and ys = "[VPrim PNull]"
        and ps = "[(''a'', VPrim PNull)]" and d = 0 and i0 = 0] t6
    by blast
  have old: "sizeLimitReached (steps ?c 1 ?i) \<and> sizeLimitReached (steps ?c 3 ?i)
      \<and> size_js (steps ?c 0 ?i) = SizeNum 0 \<and> size_js (steps ?c 1 ?i) = SizeNum 8 \<and> (0::nat) \<le> 8
      \<and> stack (steps ?c 2 ?i)
          = [(None, Val (VRef 2), Some 1, 1), (None, Val (VRef 1), Some 0, 1), (None, Enc LEFT_BRACKET, None, 0)]
      \<and> output_js (steps ?c 3 ?i) = '',[]]''
      \<and> stack (steps ?c 3 ?i) = [(None, Val (VRef 1), Some 0, 1), (None, Enc LEFT_BRACKET, None, 0)]"
    using f1 a z0 z1 b st2 s3 c d o2
    by (simp add: prefix_str_def truthy_index_def del: steps.simps)
  have n1: "stack (iterateStack ?c ?i)
     = [(None, Enc RIGHT_BRACKET, None, 0), (None, Val (VRef 2), Some 1, 1),
        (None, Val (VRef 1), Some 0, 1), (None, Enc LEFT_BRACKET, None, 0)]"
    unfolding w1 pe by (rule refl)
  have n2: "stack (pushElements ?c 0 0 [VPrim (PStr ''aaaa''), VPrim PNull] ?t2)
            = [(None, Val (VRef 0), None, 0)]"
    unfolding w2 by (rule st_t(1))
  have n3: "stack (pushElements ?c 0 0 [VPrim PNull, VPrim (PStr ''aaaa''), VPrim PNull] ?t0)
            = [(None, Val (VPrim PNull), Some 0, 1), (None, Val (VRef 0), None, 0)]"
    unfolding w3 by (rule r3)
  have n4: "stack (pushProperties ?c 0 0 [(''kkkk'', VPrim PNull), (''b'', VPrim PNull)] ?t2)
            = [(None, Val (VRef 0), None, 0)]"
    unfolding w4 by (rule st_t(1))
  have n5: "stack (pushProperties ?c 0 0 [(''a'', VPrim (PStr ''aaaa'')), (''b'', VPrim PNull)] ?t0)
            = [(None, Val (VRef 0), None, 0)]"
    unfolding w5 by (rule st_t(2))
  have n6: "stack (pushElements ?c 0 0 [VPrim PNull] ?tf) = [(None, Val (VRef 0), None, 0)]"
    using w6 st_t(3) by (simp only:)
  have n7: "stack (pushProperties ?c 0 0 [(''a'', VPrim PNull)] ?tf) = [(None, Val (VRef 0), None, 0)]"
    using w6 st_t(3) by (simp only:)
  show ?thesis
    using old n1 n2 n3 n4 n5 n6 n7 by blast
qed

section \<open>JSON values, their canonical text and a parser\<close>

text \<open>
  The round trip needs the other side: JSON values, the text that \<^verbatim>\<open>JSON.stringify\<close>
  writes for them, and a parser of JSON texts (RFC 8259: white space between tokens,
  the escapes \<^verbatim>\<open>\" \\ \/ \b \f \n \r \t \uXXXX\<close>, the number grammar). A number is kept
  as its text, an object as the list of its members in their order. A \<^verbatim>\<open>\u\<close> escape
  above code unit 255 has no character in this model and is reported as a failure.
\<close>

datatype json =
    JNull
  | JBool bool
  | JNum string
  | JStr string
  | JArr "json list"
  | JObj "(string \<times> json) list"

fun commas :: "string list \<Rightarrow> string" where
  "commas [] = []"
| "commas [t] = t"
| "commas (t # u # us) = t @ '','' @ commas (u # us)"

definition quote :: "string \<Rightarrow> string" where
  "quote t = [CHR 0x22] @ concat (map spec_escape_char t) @ [CHR 0x22]"

fun stringify :: "json \<Rightarrow> string" where
  "stringify JNull = ''null''"
| "stringify (JBool b) = (if b then ''true'' else ''false'')"
| "stringify (JNum t) = t"
| "stringify (JStr t) = quote t"
| "stringify (JArr js) = ''['' @ commas (map stringify js) @ '']''"
| "stringify (JObj kvs) = ''{'' @ commas (map (\<lambda>(k, v). quote k @ '':'' @ stringify v) kvs) @ ''}''"

definition is_ws :: "char \<Rightarrow> bool" where
  "is_ws c = (c = CHR 0x20 \<or> c = CHR 0x09 \<or> c = CHR 0x0A \<or> c = CHR 0x0D)"

definition skip_ws :: "string \<Rightarrow> string" where
  "skip_ws s = dropWhile is_ws s"

definition is_digit :: "char \<Rightarrow> bool" where
  "is_digit c = (48 \<le> (of_char c :: nat) \<and> (of_char c :: nat) \<le> 57)"

definition num_char :: "char \<Rightarrow> bool" where
  "num_char c = (is_digit c \<or> c = CHR ''-'' \<or> c = CHR ''+'' \<or> c = CHR ''.'' \<or> c = CHR ''e'' \<or> c = CHR ''E'')"

definition exp_part :: "string \<Rightarrow> bool" where
  "exp_part r =
     (r = [] \<or>
      ((hd r = CHR ''e'' \<or> hd r = CHR ''E'') \<and>
       (let r1 = tl r;
            r2 = (if r1 \<noteq> [] \<and> (hd r1 = CHR ''+'' \<or> hd r1 = CHR ''-'') then tl r1 else r1)
        in r2 \<noteq> [] \<and> list_all is_digit r2)))"

definition frac_part :: "string \<Rightarrow> bool" where
  "frac_part r =
     (if r \<noteq> [] \<and> hd r = CHR ''.''
      then takeWhile is_digit (tl r) \<noteq> [] \<and> exp_part (dropWhile is_digit (tl r))
      else exp_part r)"

definition number_text :: "string \<Rightarrow> bool" where
  "number_text t =
     (let t1 = (if t \<noteq> [] \<and> hd t = CHR ''-'' then tl t else t);
          ip = takeWhile is_digit t1
      in ip \<noteq> [] \<and> (if hd ip = CHR ''0'' then length ip = 1 else True)
         \<and> frac_part (dropWhile is_digit t1))"

definition hexval :: "char \<Rightarrow> nat option" where
  "hexval c =
     (let n = (of_char c :: nat) in
      if 48 \<le> n \<and> n \<le> 57 then Some (n - 48)
      else if 97 \<le> n \<and> n \<le> 102 then Some (n - 87)
      else if 65 \<le> n \<and> n \<le> 70 then Some (n - 55)
      else None)"

definition unescape :: "char \<Rightarrow> char option" where
  "unescape e =
     (if e = CHR 0x22 then Some (CHR 0x22)
      else if e = CHR 0x5C then Some (CHR 0x5C)
      else if e = CHR ''/'' then Some (CHR ''/'')
      else if e = CHR ''b'' then Some (CHR 0x08)
      else if e = CHR ''f'' then Some (CHR 0x0C)
      else if e = CHR ''n'' then Some (CHR 0x0A)
      else if e = CHR ''r'' then Some (CHR 0x0D)
      else if e = CHR ''t'' then Some (CHR 0x09)
      else None)"

definition cons_to :: "'a \<Rightarrow> ('a list \<times> 'b) option \<Rightarrow> ('a list \<times> 'b) option" where
  "cons_to x r = map_option (\<lambda>(xs, q). (x # xs, q)) r"

fun parse_chars :: "string \<Rightarrow> (string \<times> string) option" where
  "parse_chars [] = None"
| "parse_chars (c # cs) =
     (if c = CHR 0x22 then Some ([], cs)
      else if c = CHR 0x5C then
        (case cs of
           [] \<Rightarrow> None
         | e # r \<Rightarrow>
             if e = CHR ''u'' then
               (case r of
                  h1 # h2 # h3 # h4 # r' \<Rightarrow>
                    (case (hexval h1, hexval h2, hexval h3, hexval h4) of
                       (Some a, Some b, Some x, Some y) \<Rightarrow>
                         (if a = 0 \<and> b = 0 then cons_to (char_of (16 * x + y)) (parse_chars r')
                          else None)
                     | _ \<Rightarrow> None)
                | _ \<Rightarrow> None)
             else
               (case unescape e of
                  None \<Rightarrow> None
                | Some ch \<Rightarrow> cons_to ch (parse_chars r)))
      else if (of_char c :: nat) < 0x20 then None
      else cons_to c (parse_chars cs))"

fun parse_value :: "nat \<Rightarrow> string \<Rightarrow> (json \<times> string) option"
  and parse_elems :: "nat \<Rightarrow> string \<Rightarrow> (json list \<times> string) option"
  and parse_members :: "nat \<Rightarrow> string \<Rightarrow> ((string \<times> json) list \<times> string) option"
where
  "parse_value 0 s = None"
| "parse_value (Suc n) s =
     (case skip_ws s of
        [] \<Rightarrow> None
      | c # cs \<Rightarrow>
          if c = CHR ''['' then
            (case skip_ws cs of
               [] \<Rightarrow> None
             | d # ds \<Rightarrow>
                 if d = CHR '']'' then Some (JArr [], ds)
                 else map_option (\<lambda>(js, r). (JArr js, r)) (parse_elems n (d # ds)))
          else if c = CHR ''{'' then
            (case skip_ws cs of
               [] \<Rightarrow> None
             | d # ds \<Rightarrow>
                 if d = CHR ''}'' then Some (JObj [], ds)
                 else map_option (\<lambda>(kvs, r). (JObj kvs, r)) (parse_members n (d # ds)))
          else if c = CHR 0x22 then map_option (\<lambda>(t, r). (JStr t, r)) (parse_chars cs)
          else if take 4 (c # cs) = ''true'' then Some (JBool True, drop 4 (c # cs))
          else if take 5 (c # cs) = ''false'' then Some (JBool False, drop 5 (c # cs))
          else if take 4 (c # cs) = ''null'' then Some (JNull, drop 4 (c # cs))
          else if c = CHR ''-'' \<or> is_digit c then
            (if number_text (takeWhile num_char (c # cs))
             then Some (JNum (takeWhile num_char (c # cs)), dropWhile num_char (c # cs))
             else None)
          else None)"
| "parse_elems 0 s = None"
| "parse_elems (Suc n) s =
     (case parse_value n s of
        None \<Rightarrow> None
      | Some (v, r) \<Rightarrow>
          (case skip_ws r of
             [] \<Rightarrow> None
           | c # cs \<Rightarrow>
               if c = CHR '','' then cons_to v (parse_elems n cs)
               else if c = CHR '']'' then Some ([v], cs)
               else None))"
| "parse_members 0 s = None"
| "parse_members (Suc n) s =
     (case skip_ws s of
        [] \<Rightarrow> None
      | q # cs \<Rightarrow>
          if q \<noteq> CHR 0x22 then None
          else
            (case parse_chars cs of
               None \<Rightarrow> None
             | Some (k, r) \<Rightarrow>
                 (case skip_ws r of
                    [] \<Rightarrow> None
                  | c # cs1 \<Rightarrow>
                      if c \<noteq> CHR '':'' then None
                      else
                        (case parse_value n cs1 of
                           None \<Rightarrow> None
                         | Some (v, r2) \<Rightarrow>
                             (case skip_ws r2 of
                                [] \<Rightarrow> None
                              | c2 # cs2 \<Rightarrow>
                                  if c2 = CHR '','' then cons_to (k, v) (parse_members n cs2)
                                  else if c2 = CHR ''}'' then Some ([(k, v)], cs2)
                                  else None)))))"

definition json_parse :: "string \<Rightarrow> json option" where
  "json_parse s =
     (case parse_value (length s) s of
        None \<Rightarrow> None
      | Some (j, r) \<Rightarrow> if skip_ws r = [] then Some j else None)"

subsection \<open>Parsing the canonical text\<close>

lemma skip_ws_Cons: "\<not> is_ws c \<Longrightarrow> skip_ws (c # cs) = c # cs"
  by (simp add: skip_ws_def)

lemma less16_cases:
  "d < 16 \<Longrightarrow> d = 0 \<or> d = 1 \<or> d = 2 \<or> d = 3 \<or> d = 4 \<or> d = 5 \<or> d = 6 \<or> d = 7 \<or> d = 8
     \<or> d = 9 \<or> d = 10 \<or> d = 11 \<or> d = 12 \<or> d = 13 \<or> d = 14 \<or> d = (15::nat)"
  by arith

lemma hexval_hexDigit:
  assumes "d < 16"
  shows "hexval (hexDigit d) = Some d"
  using less16_cases [OF assms]
  by (elim disjE) (simp_all add: hexval_def hexDigit_def)

lemma parse_chars_control:
  assumes "(of_char c :: nat) < 0x20"
  shows "parse_chars ([CHR 0x5C, CHR ''u'', CHR ''0'', CHR ''0'',
            hexDigit (of_char c div 16), hexDigit (of_char c mod 16)] @ s)
         = cons_to c (parse_chars s)"
proof -
  have a: "hexval (hexDigit (of_char c div 16)) = Some (of_char c div 16)"
    using assms by (intro hexval_hexDigit) simp
  have b: "hexval (hexDigit (of_char c mod 16)) = Some (of_char c mod 16)"
    by (intro hexval_hexDigit) simp
  have z: "hexval (CHR ''0'') = Some 0"
    by (simp add: hexval_def)
  have "char_of (16 * ((of_char c :: nat) div 16) + of_char c mod 16) = c"
    by simp
  then show ?thesis
    using a b z by simp
qed

lemma parse_chars_escaped_char:
  "parse_chars (spec_escape_char c @ s) = cons_to c (parse_chars s)"
proof -
  consider (special) "c = CHR 0x08 \<or> c = CHR 0x09 \<or> c = CHR 0x0A \<or> c = CHR 0x0C \<or> c = CHR 0x0D
                       \<or> c = CHR 0x22 \<or> c = CHR 0x5C"
    | (control) "\<not> (c = CHR 0x08 \<or> c = CHR 0x09 \<or> c = CHR 0x0A \<or> c = CHR 0x0C \<or> c = CHR 0x0D
                       \<or> c = CHR 0x22 \<or> c = CHR 0x5C)" "(of_char c :: nat) < 0x20"
    | (other) "\<not> (c = CHR 0x08 \<or> c = CHR 0x09 \<or> c = CHR 0x0A \<or> c = CHR 0x0C \<or> c = CHR 0x0D
                       \<or> c = CHR 0x22 \<or> c = CHR 0x5C)" "\<not> (of_char c :: nat) < 0x20"
    by blast
  then show ?thesis
  proof cases
    case special
    then show ?thesis
      by (elim disjE) (simp_all add: spec_escape_char_def unescape_def)
  next
    case control
    then have "spec_escape_char c = [CHR 0x5C, CHR ''u'', CHR ''0'', CHR ''0'',
            hexDigit (of_char c div 16), hexDigit (of_char c mod 16)]"
      by (simp add: spec_escape_char_def)
    then show ?thesis using parse_chars_control [OF control(2)] by simp
  next
    case other
    then show ?thesis by (simp add: spec_escape_char_def)
  qed
qed

lemma parse_chars_body:
  "parse_chars (concat (map spec_escape_char t) @ CHR 0x22 # rest) = Some (t, rest)"
  by (induction t) (simp_all add: parse_chars_escaped_char cons_to_def)

lemma is_digit_num_char: "is_digit c \<Longrightarrow> num_char c"
  by (simp add: num_char_def)

lemma exp_part_chars: "exp_part r \<Longrightarrow> list_all num_char r"
proof (cases r)
  case Nil
  then show ?thesis by simp
next
  case (Cons e r1)
  assume "exp_part r"
  then have e: "e = CHR ''e'' \<or> e = CHR ''E''"
    and d: "list_all is_digit (if r1 \<noteq> [] \<and> (hd r1 = CHR ''+'' \<or> hd r1 = CHR ''-'') then tl r1 else r1)"
    using Cons by (simp_all add: exp_part_def Let_def)
  have "list_all num_char r1"
  proof (cases r1)
    case Nil
    then show ?thesis by simp
  next
    case (Cons x r2)
    then show ?thesis using d
      by (auto simp add: list_all_iff is_digit_num_char num_char_def split: if_splits)
  qed
  then show ?thesis using Cons e by (auto simp add: num_char_def)
qed

lemma digits_split: "list_all num_char (dropWhile is_digit r) \<Longrightarrow> list_all num_char r"
proof -
  assume a: "list_all num_char (dropWhile is_digit r)"
  have "list_all num_char (takeWhile is_digit r)"
    by (auto simp add: list_all_iff is_digit_num_char dest: set_takeWhileD)
  then have "list_all num_char (takeWhile is_digit r @ dropWhile is_digit r)"
    unfolding list_all_append using a by blast
  then show ?thesis by simp
qed

lemma frac_part_chars: "frac_part r \<Longrightarrow> list_all num_char r"
proof (cases "r \<noteq> [] \<and> hd r = CHR ''.''")
  case True
  assume "frac_part r"
  then have "list_all num_char (dropWhile is_digit (tl r))"
    using True by (simp add: frac_part_def exp_part_chars)
  then have "list_all num_char (tl r)" by (rule digits_split)
  then show ?thesis using True by (cases r) (simp_all add: num_char_def)
next
  case False
  assume "frac_part r"
  then show ?thesis using False by (simp add: frac_part_def exp_part_chars)
qed

lemma number_text_chars: "number_text t \<Longrightarrow> list_all num_char t"
proof -
  assume n: "number_text t"
  let ?t1 = "if t \<noteq> [] \<and> hd t = CHR ''-'' then tl t else t"
  have "list_all num_char (dropWhile is_digit ?t1)"
    using n by (simp add: number_text_def Let_def frac_part_chars)
  then have "list_all num_char ?t1" by (rule digits_split)
  then show ?thesis by (cases t) (auto simp add: num_char_def split: if_splits)
qed

lemma number_text_head: "number_text t \<Longrightarrow> t \<noteq> [] \<and> (hd t = CHR ''-'' \<or> is_digit (hd t))"
proof -
  assume n: "number_text t"
  let ?t1 = "if t \<noteq> [] \<and> hd t = CHR ''-'' then tl t else t"
  have ne: "takeWhile is_digit ?t1 \<noteq> []"
    using n by (simp add: number_text_def Let_def)
  then have "t \<noteq> []" by (auto split: if_splits)
  moreover have "hd t = CHR ''-'' \<or> is_digit (hd t)"
    using ne by (cases t) (auto split: if_splits)
  ultimately show ?thesis by simp
qed

definition delim :: "string \<Rightarrow> bool" where
  "delim rest = (case rest of [] \<Rightarrow> True | c # cs \<Rightarrow> \<not> num_char c)"

lemma parse_value_number:
  assumes "number_text t" and "delim rest"
  shows "parse_value (Suc n) (t @ rest) = Some (JNum t, rest)"
proof -
  obtain c cs where t: "t = c # cs" and c: "c = CHR ''-'' \<or> is_digit c"
    using number_text_head [OF assms(1)] by (cases t) auto
  have all: "list_all num_char t" using assms(1) by (rule number_text_chars)
  have tw: "takeWhile num_char (t @ rest) = t"
    using all assms(2) by (cases rest) (simp_all add: list_all_iff delim_def)
  have dw: "dropWhile num_char (t @ rest) = rest"
    using all assms(2) by (cases rest) (simp_all add: list_all_iff delim_def)
  have nws: "\<not> is_ws c" "c \<noteq> CHR ''[''" "c \<noteq> CHR ''{''" "c \<noteq> CHR 0x22"
    "c \<noteq> CHR ''t''" "c \<noteq> CHR ''f''" "c \<noteq> CHR ''n''"
    using c by (auto simp add: is_ws_def is_digit_def)
  show ?thesis
    using tw dw nws c assms(1) unfolding t
    by (simp add: skip_ws_Cons)
qed

lemma parse_value_literals:
  "parse_value (Suc n) (''null'' @ rest) = Some (JNull, rest)"
  "parse_value (Suc n) (''true'' @ rest) = Some (JBool True, rest)"
  "parse_value (Suc n) (''false'' @ rest) = Some (JBool False, rest)"
  by (simp_all add: skip_ws_def is_ws_def)

lemma parse_value_string:
  "parse_value (Suc n) (quote t @ rest) = Some (JStr t, rest)"
  by (simp add: quote_def skip_ws_def is_ws_def parse_chars_body)

fun numbers_ok :: "json \<Rightarrow> bool" where
  "numbers_ok (JNum t) = number_text t"
| "numbers_ok (JArr js) = list_all numbers_ok js"
| "numbers_ok (JObj kvs) = list_all (\<lambda>(k, v). numbers_ok v) kvs"
| "numbers_ok j = True"

lemma stringify_head:
  "numbers_ok j \<Longrightarrow> \<exists>c cs. stringify j = c # cs \<and> \<not> is_ws c \<and> c \<noteq> CHR '']'' \<and> c \<noteq> CHR ''}''"
proof (cases j)
  case (JNum t)
  assume "numbers_ok j"
  then obtain c cs where "t = c # cs" "c = CHR ''-'' \<or> is_digit c"
    using JNum number_text_head [of t] by (cases t) auto
  then show ?thesis using JNum by (auto simp add: is_ws_def is_digit_def)
qed (simp_all add: is_ws_def quote_def)

lemma delim_simps [simp]: "delim []" "delim (CHR '']'' # r)" "delim (CHR ''}'' # r)" "delim (CHR '','' # r)"
  by (simp_all add: delim_def num_char_def is_digit_def)

lemma parse_elems_text:
  assumes "\<And>j n rest. j \<in> set js \<Longrightarrow> delim rest \<Longrightarrow> length (stringify j) \<le> n \<Longrightarrow>
             parse_value n (stringify j @ rest) = Some (j, rest)"
    and "js \<noteq> []"
    and "length (commas (map stringify js)) < n"
  shows "parse_elems n (commas (map stringify js) @ CHR '']'' # rest) = Some (js, rest)"
  using assms
proof (induction js arbitrary: n)
  case Nil
  then show ?case by simp
next
  case (Cons j js')
  obtain m where n: "n = Suc m" using Cons.prems(3) by (cases n) auto
  show ?case
  proof (cases js')
    case Nil
    have "parse_value m (stringify j @ CHR '']'' # rest) = Some (j, CHR '']'' # rest)"
      using Cons.prems(3) n Nil by (intro Cons.prems(1)) simp_all
    then show ?thesis using n Nil by (simp add: skip_ws_def is_ws_def)
  next
    case (Cons j2 js2)
    let ?more = "commas (map stringify js') @ CHR '']'' # rest"
    have len: "length (stringify j) \<le> m" "length (commas (map stringify js')) < m"
      using Cons.prems(3) n Cons by simp_all
    have pv: "parse_value m (stringify j @ CHR '','' # ?more) = Some (j, CHR '','' # ?more)"
      using len(1) by (intro Cons.prems(1)) simp_all
    have pe: "parse_elems m ?more = Some (js', rest)"
      using Cons.prems(1) len(2) Cons by (intro Cons.IH) simp_all
    show ?thesis using n Cons pv pe by (simp add: skip_ws_def is_ws_def cons_to_def)
  qed
qed

definition members_text :: "(string \<times> json) list \<Rightarrow> string" where
  "members_text kvs = commas (map (\<lambda>(k, v). quote k @ '':'' @ stringify v) kvs)"

lemma parse_members_text:
  assumes "\<And>k v n rest. (k, v) \<in> set kvs \<Longrightarrow> delim rest \<Longrightarrow> length (stringify v) \<le> n \<Longrightarrow>
             parse_value n (stringify v @ rest) = Some (v, rest)"
    and "kvs \<noteq> []"
    and "length (members_text kvs) < n"
  shows "parse_members n (members_text kvs @ CHR ''}'' # rest) = Some (kvs, rest)"
  using assms
proof (induction kvs arbitrary: n)
  case Nil
  then show ?case by simp
next
  case (Cons kv kvs')
  obtain k v where kv: "kv = (k, v)" by (cases kv) auto
  obtain m where n: "n = Suc m" using Cons.prems(3) by (cases n) auto
  let ?body = "concat (map spec_escape_char k)"
  show ?case
  proof (cases kvs')
    case Nil
    have text_eq: "members_text (kv # kvs') @ CHR ''}'' # rest
                 = CHR 0x22 # ?body @ CHR 0x22 # CHR '':'' # stringify v @ CHR ''}'' # rest"
      using Nil kv by (simp add: members_text_def quote_def)
    have "length (stringify v) \<le> m"
      using Cons.prems(3) n Nil kv by (simp add: members_text_def quote_def)
    then have "parse_value m (stringify v @ CHR ''}'' # rest) = Some (v, CHR ''}'' # rest)"
      using kv by (intro Cons.prems(1) [of k]) simp_all
    then show ?thesis unfolding text_eq n using Nil kv
      by (simp add: skip_ws_def is_ws_def parse_chars_body)
  next
    case (Cons kv2 kvs2)
    let ?more = "members_text kvs' @ CHR ''}'' # rest"
    have text_eq: "members_text (kv # kvs') @ CHR ''}'' # rest
                 = CHR 0x22 # ?body @ CHR 0x22 # CHR '':'' # stringify v @ CHR '','' # ?more"
      using Cons kv by (simp add: members_text_def quote_def)
    have len: "length (stringify v) \<le> m" "length (members_text kvs') < m"
      using Cons.prems(3) n Cons kv by (simp_all add: members_text_def quote_def)
    have pv: "parse_value m (stringify v @ CHR '','' # ?more) = Some (v, CHR '','' # ?more)"
      using len(1) kv by (intro Cons.prems(1) [of k]) simp_all
    have pm: "parse_members m ?more = Some (kvs', rest)"
    proof (rule Cons.IH)
      show "parse_value i (stringify x @ r) = Some (x, r)"
        if "(a, x) \<in> set kvs'" "delim r" "length (stringify x) \<le> i" for a x i r
        using Cons.prems(1) [of a x r i] that by simp
      show "kvs' \<noteq> []" using Cons by simp
      show "length (members_text kvs') < m" by (rule len(2))
    qed
    show ?thesis unfolding text_eq n using pv pm kv
      by (simp add: skip_ws_def is_ws_def parse_chars_body cons_to_def)
  qed
qed

lemma commas_head:
  assumes "ts \<noteq> []" and "hd ts = c # cs"
  shows "\<exists>cs'. commas ts = c # cs'"
  using assms by (cases ts rule: commas.cases) simp_all

lemma parse_value_stringify:
  "numbers_ok j \<Longrightarrow> delim rest \<Longrightarrow> length (stringify j) \<le> n \<Longrightarrow>
   parse_value n (stringify j @ rest) = Some (j, rest)"
proof (induction j arbitrary: n rest)
  case JNull
  then obtain m where "n = Suc m" by (cases n) auto
  then show ?case using parse_value_literals(1) [of m rest] by simp
next
  case (JBool b)
  then obtain m where "n = Suc m" by (cases n) (auto split: if_splits)
  then show ?case using parse_value_literals(2,3) [of m rest] by simp
next
  case (JNum t)
  then have "t \<noteq> []" using number_text_head [of t] by simp
  then obtain m where "n = Suc m" using JNum.prems(3) by (cases n) auto
  then show ?case using JNum.prems parse_value_number [of t rest m] by simp
next
  case (JStr t)
  then obtain m where "n = Suc m" by (cases n) (auto simp add: quote_def)
  then show ?case using parse_value_string [of m t rest] by simp
next
  case (JArr js)
  obtain m where n: "n = Suc m" using JArr.prems(3) by (cases n) auto
  show ?case
  proof (cases "js = []")
    case True
    then show ?thesis using n by (simp add: skip_ws_def is_ws_def)
  next
    case False
    have ok: "numbers_ok j" if "j \<in> set js" for j
      using JArr.prems(1) that by (simp add: list_all_iff)
    have ih: "parse_value k (stringify j @ r) = Some (j, r)"
      if "j \<in> set js" "delim r" "length (stringify j) \<le> k" for j k r
      using JArr.IH [OF that(1) ok [OF that(1)] that(2,3)] .
    have "length (commas (map stringify js)) < m"
      using JArr.prems(3) n by simp
    then have pe: "parse_elems m (commas (map stringify js) @ CHR '']'' # rest) = Some (js, rest)"
      using ih False by (intro parse_elems_text) simp_all
    obtain c cs where hd: "stringify (hd js) = c # cs" "\<not> is_ws c" "c \<noteq> CHR '']''"
      using stringify_head [OF ok [of "hd js"]] False by auto
    then obtain cs' where cm: "commas (map stringify js) = c # cs'"
      using commas_head [of "map stringify js" c cs] False by (auto simp add: hd_map)
    show ?thesis using n pe hd(2,3)
      by (simp add: cm skip_ws_def is_ws_def)
  qed
next
  case (JObj kvs)
  obtain m where n: "n = Suc m" using JObj.prems(3) by (cases n) auto
  show ?case
  proof (cases "kvs = []")
    case True
    then show ?thesis using n by (simp add: skip_ws_def is_ws_def)
  next
    case False
    have ok: "numbers_ok v" if "(k, v) \<in> set kvs" for k v
      using JObj.prems(1) that by (auto simp add: list_all_iff)
    have ih: "parse_value i (stringify v @ r) = Some (v, r)"
      if "(k, v) \<in> set kvs" "delim r" "length (stringify v) \<le> i" for k v i r
      by (rule JObj.IH [OF that(1) _ ok [OF that(1)] that(2,3)]) simp
    have st: "stringify (JObj kvs) = CHR ''{'' # members_text kvs @ ''}''"
      by (simp add: members_text_def)
    have "length (members_text kvs) < m"
      using JObj.prems(3) n unfolding st by simp
    then have pm: "parse_members m (members_text kvs @ CHR ''}'' # rest) = Some (kvs, rest)"
      using ih False by (intro parse_members_text) simp_all
    obtain cs' where cm: "members_text kvs = CHR 0x22 # cs'"
      using False commas_head [of "map (\<lambda>(k, v). quote k @ '':'' @ stringify v) kvs" "CHR 0x22"]
      by (cases kvs) (auto simp add: members_text_def quote_def)
    show ?thesis using n pm unfolding st cm
      by (simp add: skip_ws_def is_ws_def)
  qed
qed

lemma json_parse_stringify: "numbers_ok j \<Longrightarrow> json_parse (stringify j) = Some j"
  using parse_value_stringify [of j "[]" "length (stringify j)"]
  by (simp add: json_parse_def skip_ws_def)

section \<open>The traversal of a tree\<close>

text \<open>
  \<open>json_of cfg n v\<close> is the JSON value that the value \<open>v\<close> denotes when its nesting is
  less than \<open>n\<close> deep: dates, errors, patterns and functions as their texts. There is
  none for \<^verbatim>\<open>undefined\<close>, and none for a cyclic value, whatever \<open>n\<close>.
  \<open>addrs_of cfg n v\<close> lists the objects met on the way, one entry per reference.
\<close>

fun json_of :: "config \<Rightarrow> nat \<Rightarrow> jsval \<Rightarrow> json option" where
  "json_of cfg n (VPrim PNull) = Some JNull"
| "json_of cfg n (VPrim PUndefined) = None"
| "json_of cfg n (VPrim (PBool b)) = Some (JBool b)"
| "json_of cfg n (VPrim (PNum t)) = Some (JNum t)"
| "json_of cfg n (VPrim (PStr t)) = Some (JStr t)"
| "json_of cfg n (VFun name) = Some (JStr (function_text name))"
| "json_of cfg 0 (VRef a) = None"
| "json_of cfg (Suc n) (VRef a) =
     (case heap_at cfg a of
        None \<Rightarrow> None
      | Some (OArray xs) \<Rightarrow> map_option JArr (those (map (json_of cfg n) xs))
      | Some (ODate t) \<Rightarrow> Some (JStr t)
      | Some (OError t) \<Rightarrow> Some (JStr t)
      | Some (ORegExp t) \<Rightarrow> Some (JStr t)
      | Some (OObject kvs) \<Rightarrow>
          map_option JObj (those (map (\<lambda>(k, x). map_option (Pair k) (json_of cfg n x)) kvs)))"

fun addrs_of :: "config \<Rightarrow> nat \<Rightarrow> jsval \<Rightarrow> nat list" where
  "addrs_of cfg n (VPrim p) = []"
| "addrs_of cfg n (VFun name) = []"
| "addrs_of cfg 0 (VRef a) = [a]"
| "addrs_of cfg (Suc n) (VRef a) =
     a # (case heap_at cfg a of
            Some (OArray xs) \<Rightarrow> concat (map (addrs_of cfg n) xs)
          | Some (OObject kvs) \<Rightarrow> concat (map (\<lambda>(k, x). addrs_of cfg n x) kvs)
          | _ \<Rightarrow> [])"

declare json_of.simps(8) [simp del] addrs_of.simps(4) [simp del]

text \<open>
  \<open>plain j\<close>: every number text is a JSON number, no object is empty, and every key is
  non-empty and holds no character that \<open>escape\<close> would replace.
\<close>

fun plain :: "json \<Rightarrow> bool" where
  "plain (JNum t) = number_text t"
| "plain (JArr js) = list_all plain js"
| "plain (JObj kvs) =
     (kvs \<noteq> [] \<and> list_all (\<lambda>(k, v). k \<noteq> [] \<and> \<not> list_ex ESCAPE_REGEXP k \<and> plain v) kvs)"
| "plain j = True"

lemma plain_numbers_ok: "plain j \<Longrightarrow> numbers_ok j"
  by (induction j) (auto simp add: list_all_iff)

definition finishes :: "config \<Rightarrow> state \<Rightarrow> frame list \<Rightarrow> string \<Rightarrow> nat set \<Rightarrow> bool" where
  "finishes cfg s R out S =
     (\<exists>s'. iterate cfg s = iterate cfg s' \<and> stack s' = R \<and> output_js s' = out \<and> seen s' = S
           \<and> \<not> sizeLimitReached s')"

lemma finishes_here:
  "stack s = R \<Longrightarrow> output_js s = out \<Longrightarrow> seen s = S \<Longrightarrow> \<not> sizeLimitReached s \<Longrightarrow>
   finishes cfg s R out S"
  unfolding finishes_def by blast

lemma finishes_step:
  "stack s \<noteq> [] \<Longrightarrow> finishes cfg (iterateStack cfg s) R out S \<Longrightarrow> finishes cfg s R out S"
  unfolding finishes_def using iterate_step [of s cfg] by simp

lemma finishes_trans:
  assumes "finishes cfg s R1 out1 S1"
    and "\<And>s'. stack s' = R1 \<Longrightarrow> output_js s' = out1 \<Longrightarrow> seen s' = S1 \<Longrightarrow>
           \<not> sizeLimitReached s' \<Longrightarrow> finishes cfg s' R out S"
  shows "finishes cfg s R out S"
proof -
  obtain s' where s': "iterate cfg s = iterate cfg s'" "stack s' = R1" "output_js s' = out1"
      "seen s' = S1" "\<not> sizeLimitReached s'"
    using assms(1) unfolding finishes_def by blast
  have "finishes cfg s' R out S" using s' by (intro assms(2)) simp_all
  then show ?thesis using s'(1) unfolding finishes_def by simp
qed

fun elem_frames :: "nat \<Rightarrow> nat \<Rightarrow> jsval list \<Rightarrow> frame list" where
  "elem_frames d i [] = []"
| "elem_frames d i (x # xs) = (None, Val x, Some i, d + 1) # elem_frames d (i + 1) xs"

fun prop_frames :: "nat \<Rightarrow> nat \<Rightarrow> (string \<times> jsval) list \<Rightarrow> frame list" where
  "prop_frames d i [] = []"
| "prop_frames d i ((k, x) # kvs) = (Some k, Val x, Some i, d + 1) # prop_frames d (i + 1) kvs"

lemma pushElements_all:
  assumes "maxSize cfg = PosInf"
  shows "\<not> sizeLimitReached s \<Longrightarrow>
         stack (pushElements cfg d i xs s) = rev (elem_frames d i xs) @ stack s
         \<and> \<not> sizeLimitReached (pushElements cfg d i xs s)"
  by (induction xs arbitrary: i s) (simp_all add: Let_def flag_PosInf [OF assms])

lemma pushProperties_all:
  assumes "maxSize cfg = PosInf"
  shows "\<not> sizeLimitReached s \<Longrightarrow>
         stack (pushProperties cfg d i kvs s) = rev (prop_frames d i kvs) @ stack s
         \<and> \<not> sizeLimitReached (pushProperties cfg d i kvs s)"
  by (induction d i kvs arbitrary: s rule: prop_frames.induct)
     (simp_all add: Let_def flag_PosInf [OF assms])

lemma leaf_flag_inf:
  "maxSize cfg = PosInf \<Longrightarrow> sizeLimitReached (leaf k v i cfg s) = sizeLimitReached s"
  by (simp add: leaf_def Let_def)

fun elems_text :: "nat \<Rightarrow> json list \<Rightarrow> string" where
  "elems_text i [] = []"
| "elems_text i (j # js) = prefix_str None (Some i) @ stringify j @ elems_text (i + 1) js"

fun props_text :: "nat \<Rightarrow> (string \<times> json) list \<Rightarrow> string" where
  "props_text i [] = []"
| "props_text i ((k, j) # kvs) = prefix_str (Some k) (Some i) @ stringify j @ props_text (i + 1) kvs"

lemma commas_Cons: "commas (t # ts) = t @ concat (map (\<lambda>u. '','' @ u) ts)"
  by (induction ts arbitrary: t) simp_all

lemma elems_text_pos: "0 < i \<Longrightarrow> elems_text i js = concat (map (\<lambda>u. '','' @ u) (map stringify js))"
  by (induction js arbitrary: i) (simp_all add: prefix_str_def truthy_index_def)

lemma elems_text_commas: "elems_text 0 js = commas (map stringify js)"
  by (cases js) (simp_all add: commas_Cons elems_text_pos prefix_str_def truthy_index_def)

lemma quote_plain_key: "\<not> list_ex ESCAPE_REGEXP k \<Longrightarrow> quote k = CHR 0x22 # k @ [CHR 0x22]"
  by (simp add: quote_def spec_escape_unchanged)

lemma props_text_pos:
  "0 < i \<Longrightarrow> list_all (\<lambda>(k, v). k \<noteq> [] \<and> \<not> list_ex ESCAPE_REGEXP k \<and> plain v) kvs \<Longrightarrow>
   props_text i kvs
     = concat (map (\<lambda>u. '','' @ u) (map (\<lambda>(k, v). quote k @ '':'' @ stringify v) kvs))"
  by (induction i kvs rule: props_text.induct)
     (simp_all add: prefix_str_def truthy_index_def quote_plain_key dquote_def)

lemma props_text_commas:
  "list_all (\<lambda>(k, v). k \<noteq> [] \<and> \<not> list_ex ESCAPE_REGEXP k \<and> plain v) kvs \<Longrightarrow>
   props_text 0 kvs = members_text kvs"
  by (cases kvs)
     (auto simp add: members_text_def commas_Cons props_text_pos prefix_str_def truthy_index_def
        quote_plain_key dquote_def)

definition value_ok :: "config \<Rightarrow> nat \<Rightarrow> bool" where
  "value_ok cfg n =
     (\<forall>v j s key index depth rest.
        json_of cfg n v = Some j \<longrightarrow> plain j \<longrightarrow> distinct (addrs_of cfg n v) \<longrightarrow>
        set (addrs_of cfg n v) \<inter> seen s = {} \<longrightarrow> \<not> sizeLimitReached s \<longrightarrow>
        stack s = (key, Val v, index, depth) # rest \<longrightarrow>
        finishes cfg s rest (prefix_str key index @ stringify j @ output_js s)
          (seen s \<union> set (addrs_of cfg n v)))"

lemma value_okD:
  assumes "value_ok cfg n" and "json_of cfg n v = Some j" and "plain j"
    and "distinct (addrs_of cfg n v)" and "set (addrs_of cfg n v) \<inter> seen s = {}"
    and "\<not> sizeLimitReached s" and "stack s = (key, Val v, index, depth) # rest"
  shows "finishes cfg s rest (prefix_str key index @ stringify j @ output_js s)
           (seen s \<union> set (addrs_of cfg n v))"
  using assms unfolding value_ok_def by blast

lemma run_leaf:
  assumes "maxSize cfg = PosInf" and "json_of cfg n (VPrim p) = Some j"
    and "\<not> sizeLimitReached s" and "stack s = (key, Val (VPrim p), index, depth) # rest"
  shows "finishes cfg s rest (prefix_str key index @ stringify j @ output_js s) (seen s)"
proof -
  have tok: "token_str (TPrim p) = stringify j"
    using assms(2) by (cases p) (auto simp add: token_str_def quote_def escape_char_wise dquote_def)
  have ne: "stack s \<noteq> []" using assms(4) by simp
  have "finishes cfg (iterateStack cfg s) rest
          (prefix_str key index @ stringify j @ output_js s) (seen s)"
    unfolding iterateStack_VPrim [OF assms(4)]
    by (rule finishes_here) (simp_all add: render_str_def tok leaf_flag_inf [OF assms(1)] assms(3))
  then show ?thesis by (rule finishes_step [OF ne])
qed

lemma run_function:
  assumes "\<not> sizeLimitReached s" and "stack s = (key, Val (VFun name), index, depth) # rest"
  shows "finishes cfg s rest
           (prefix_str key index @ stringify (JStr (function_text name)) @ output_js s) (seen s)"
proof -
  have ne: "stack s \<noteq> []" using assms(2) by simp
  have "finishes cfg (iterateStack cfg s) rest
          (prefix_str key index @ stringify (JStr (function_text name)) @ output_js s) (seen s)"
    unfolding iterateStack_VFun [OF assms(2)]
    by (rule finishes_here)
       (simp_all add: render_str_def token_str_def quote_def escape_char_wise dquote_def assms(1))
  then show ?thesis by (rule finishes_step [OF ne])
qed

lemma run_elements:
  assumes ok: "value_ok cfg n"
  shows "those (map (json_of cfg n) xs) = Some js \<Longrightarrow> list_all plain js \<Longrightarrow>
         distinct (concat (map (addrs_of cfg n) xs)) \<Longrightarrow>
         set (concat (map (addrs_of cfg n) xs)) \<inter> seen s = {} \<Longrightarrow>
         \<not> sizeLimitReached s \<Longrightarrow> stack s = rev (elem_frames d i xs) @ R \<Longrightarrow>
         finishes cfg s R (elems_text i js @ output_js s)
           (seen s \<union> set (concat (map (addrs_of cfg n) xs)))"
proof (induction xs arbitrary: i js s R)
  case Nil
  then show ?case by (intro finishes_here) auto
next
  case (Cons x xs)
  obtain j js' where j: "json_of cfg n x = Some j" "those (map (json_of cfg n) xs) = Some js'"
      "js = j # js'"
    using Cons.prems(1) by (auto split: option.splits)
  let ?f = "(None, Val x, Some i, d + 1)"
  let ?A = "set (concat (map (addrs_of cfg n) xs))"
  have st: "stack s = rev (elem_frames d (i + 1) xs) @ (?f # R)"
    using Cons.prems(6) by simp
  have pl: "plain j" "list_all plain js'"
    using Cons.prems(2) j(3) by simp_all
  have dis: "distinct (addrs_of cfg n x)" "distinct (concat (map (addrs_of cfg n) xs))"
      "set (addrs_of cfg n x) \<inter> ?A = {}"
    using Cons.prems(3) by auto
  have disj: "?A \<inter> seen s = {}" "set (addrs_of cfg n x) \<inter> seen s = {}"
    using Cons.prems(4) by auto
  have first: "finishes cfg s (?f # R) (elems_text (i + 1) js' @ output_js s) (seen s \<union> ?A)"
    by (rule Cons.IH [OF j(2) pl(2) dis(2) disj(1) Cons.prems(5) st])
  show ?case
  proof (rule finishes_trans [OF first])
    fix s' :: state
    assume s': "stack s' = ?f # R" "output_js s' = elems_text (i + 1) js' @ output_js s"
      "seen s' = seen s \<union> ?A" "\<not> sizeLimitReached s'"
    have "set (addrs_of cfg n x) \<inter> seen s' = {}"
      using dis(3) disj(2) s'(3) by auto
    then have "finishes cfg s' R (prefix_str None (Some i) @ stringify j @ output_js s')
                 (seen s' \<union> set (addrs_of cfg n x))"
      by (rule value_okD [OF ok j(1) pl(1) dis(1) _ s'(4) s'(1)])
    moreover have "seen s' \<union> set (addrs_of cfg n x)
                     = seen s \<union> set (concat (map (addrs_of cfg n) (x # xs)))"
      using s'(3) by auto
    ultimately show "finishes cfg s' R (elems_text i js @ output_js s)
                       (seen s \<union> set (concat (map (addrs_of cfg n) (x # xs))))"
      using s'(2) j(3) by simp
  qed
qed

lemma run_properties:
  assumes ok: "value_ok cfg n"
  shows "those (map (\<lambda>(k, x). map_option (Pair k) (json_of cfg n x)) kvs) = Some kjs \<Longrightarrow>
         list_all (\<lambda>(k, v). k \<noteq> [] \<and> \<not> list_ex ESCAPE_REGEXP k \<and> plain v) kjs \<Longrightarrow>
         distinct (concat (map (\<lambda>(k, x). addrs_of cfg n x) kvs)) \<Longrightarrow>
         set (concat (map (\<lambda>(k, x). addrs_of cfg n x) kvs)) \<inter> seen s = {} \<Longrightarrow>
         \<not> sizeLimitReached s \<Longrightarrow> stack s = rev (prop_frames d i kvs) @ R \<Longrightarrow>
         finishes cfg s R (props_text i kjs @ output_js s)
           (seen s \<union> set (concat (map (\<lambda>(k, x). addrs_of cfg n x) kvs)))"
proof (induction kvs arbitrary: i kjs s R)
  case Nil
  then show ?case by (intro finishes_here) auto
next
  case (Cons kx kvs)
  obtain k x where kx: "kx = (k, x)" by (cases kx) auto
  obtain j kjs' where j: "json_of cfg n x = Some j"
      "those (map (\<lambda>(k, x). map_option (Pair k) (json_of cfg n x)) kvs) = Some kjs'"
      "kjs = (k, j) # kjs'"
    using Cons.prems(1) kx by (auto split: option.splits)
  let ?f = "(Some k, Val x, Some i, d + 1)"
  let ?A = "set (concat (map (\<lambda>(k, x). addrs_of cfg n x) kvs))"
  have st: "stack s = rev (prop_frames d (i + 1) kvs) @ (?f # R)"
    using Cons.prems(6) kx by simp
  have pl: "plain j" "list_all (\<lambda>(k, v). k \<noteq> [] \<and> \<not> list_ex ESCAPE_REGEXP k \<and> plain v) kjs'"
    using Cons.prems(2) j(3) by simp_all
  have dis: "distinct (addrs_of cfg n x)" "distinct (concat (map (\<lambda>(k, x). addrs_of cfg n x) kvs))"
      "set (addrs_of cfg n x) \<inter> ?A = {}"
    using Cons.prems(3) kx by auto
  have disj: "?A \<inter> seen s = {}" "set (addrs_of cfg n x) \<inter> seen s = {}"
    using Cons.prems(4) kx by auto
  have first: "finishes cfg s (?f # R) (props_text (i + 1) kjs' @ output_js s) (seen s \<union> ?A)"
    by (rule Cons.IH [OF j(2) pl(2) dis(2) disj(1) Cons.prems(5) st])
  show ?case
  proof (rule finishes_trans [OF first])
    fix s' :: state
    assume s': "stack s' = ?f # R" "output_js s' = props_text (i + 1) kjs' @ output_js s"
      "seen s' = seen s \<union> ?A" "\<not> sizeLimitReached s'"
    have "set (addrs_of cfg n x) \<inter> seen s' = {}"
      using dis(3) disj(2) s'(3) by auto
    then have "finishes cfg s' R (prefix_str (Some k) (Some i) @ stringify j @ output_js s')
                 (seen s' \<union> set (addrs_of cfg n x))"
      by (rule value_okD [OF ok j(1) pl(1) dis(1) _ s'(4) s'(1)])
    moreover have "seen s' \<union> set (addrs_of cfg n x)
                     = seen s \<union> set (concat (map (\<lambda>(k, x). addrs_of cfg n x) (kx # kvs)))"
      using s'(3) kx by auto
    ultimately show "finishes cfg s' R (props_text i kjs @ output_js s)
                       (seen s \<union> set (concat (map (\<lambda>(k, x). addrs_of cfg n x) (kx # kvs))))"
      using s'(2) j(3) by simp
  qed
qed

lemma run_object:
  assumes inf: "maxDepth cfg = PosInf" "maxSize cfg = PosInf"
    and ok: "value_ok cfg n"
    and j: "json_of cfg (Suc n) (VRef a) = Some j"
    and pl: "plain j"
    and dis: "distinct (addrs_of cfg (Suc n) (VRef a))"
    and disj: "set (addrs_of cfg (Suc n) (VRef a)) \<inter> seen s = {}"
    and nf: "\<not> sizeLimitReached s"
    and st: "stack s = (key, Val (VRef a), index, depth) # rest"
  shows "finishes cfg s rest (prefix_str key index @ stringify j @ output_js s)
           (seen s \<union> set (addrs_of cfg (Suc n) (VRef a)))"
proof -
  have a: "a \<notin> seen s" using disj by (simp add: addrs_of.simps(4))
  obtain ob where ob: "heap_at cfg a = Some ob"
    using j by (auto simp add: json_of.simps(8) split: option.splits)
  let ?s1 = "s\<lparr>stack := rest, seen := insert a (seen s)\<rparr>"
  let ?goal = "\<lambda>t. finishes cfg t rest (prefix_str key index @ stringify j @ output_js s)
                      (seen s \<union> set (addrs_of cfg (Suc n) (VRef a)))"
  have step: "iterateStack cfg s = expand cfg key index depth ob ?s1"
    using st a ob by (simp add: iterateStack_unseen)
  have ne: "stack s \<noteq> []" using st by simp
  have leaf_case: "?goal (render key (TPrim (PStr t)) index ?s1)"
    if "j = JStr t" "addrs_of cfg (Suc n) (VRef a) = [a]" for t
    unfolding that(2)
    by (rule finishes_here)
       (simp_all add: that(1) render_str_def token_str_def quote_def escape_char_wise dquote_def nf)
  have "?goal (expand cfg key index depth ob ?s1)"
  proof (cases ob)
    case (ODate t)
    have jt: "j = JStr t" using j ob ODate by (simp add: json_of.simps(8))
    have adt: "addrs_of cfg (Suc n) (VRef a) = [a]" using ob ODate by (simp add: addrs_of.simps(4))
    show ?thesis using leaf_case [OF jt adt] ODate by (simp add: expand_def)
  next
    case (OError t)
    have jt: "j = JStr t" using j ob OError by (simp add: json_of.simps(8))
    have adt: "addrs_of cfg (Suc n) (VRef a) = [a]" using ob OError by (simp add: addrs_of.simps(4))
    show ?thesis using leaf_case [OF jt adt] OError by (simp add: expand_def)
  next
    case (ORegExp t)
    have jt: "j = JStr t" using j ob ORegExp by (simp add: json_of.simps(8))
    have adt: "addrs_of cfg (Suc n) (VRef a) = [a]" using ob ORegExp by (simp add: addrs_of.simps(4))
    show ?thesis using leaf_case [OF jt adt] ORegExp by (simp add: expand_def)
  next
    case (OArray xs)
    obtain js where js: "those (map (json_of cfg n) xs) = Some js" "j = JArr js"
      using j ob OArray by (auto simp add: json_of.simps(8))
    let ?A = "set (concat (map (addrs_of cfg n) xs))"
    have ad: "addrs_of cfg (Suc n) (VRef a) = a # concat (map (addrs_of cfg n) xs)"
      using ob OArray by (simp add: addrs_of.simps(4))
    have dis': "a \<notin> ?A" "distinct (concat (map (addrs_of cfg n) xs))"
      using dis unfolding ad by simp_all
    have disj': "?A \<inter> seen s = {}" using disj unfolding ad by simp
    let ?s2 = "addSize cfg 2 ?s1"
    let ?LB = "(key, Enc LEFT_BRACKET, index, depth)"
    let ?RB = "(None :: string option, Enc RIGHT_BRACKET, None :: nat option, depth)"
    let ?fs = "rev (elem_frames depth 0 xs) @ ?LB # rest"
    let ?s3 = "pushElements cfg depth 0 xs (push ?LB ?s2)"
    let ?s4 = "push ?RB ?s3"
    have nf2: "\<not> sizeLimitReached (push ?LB ?s2)"
      using nf by (simp add: flag_PosInf [OF inf(2)])
    have pe: "stack ?s3 = ?fs" "\<not> sizeLimitReached ?s3"
      using pushElements_all [OF inf(2) nf2, of depth 0 xs] by simp_all
    have me: "may_expand cfg depth ?s2"
      using nf inf by (simp add: may_expand_def flag_PosInf)
    have ex: "expand cfg key index depth ob ?s1 = ?s4"
      using OArray me by (simp add: expand_def Let_def)
    let ?s5 = "leaf None (TEnc RIGHT_BRACKET) None cfg (?s4\<lparr>stack := ?fs\<rparr>)"
    have st4: "stack ?s4 = ?RB # ?fs" using pe(1) by simp
    have step4: "iterateStack cfg ?s4 = ?s5" by (rule iterateStack_Enc [OF st4])
    have s5: "stack ?s5 = ?fs" "output_js ?s5 = '']'' @ output_js s"
        "seen ?s5 = insert a (seen s)" "\<not> sizeLimitReached ?s5"
      by (simp_all add: render_str_def prefix_str_def truthy_index_def token_str_def
            getEnclosure_def leaf_flag_inf [OF inf(2)] pe(2))
    have c1: "list_all plain js" using pl js(2) by simp
    have c2: "distinct (concat (map (addrs_of cfg n) xs))" by (rule dis'(2))
    have c3: "?A \<inter> seen ?s5 = {}" using dis'(1) disj' unfolding s5(3) by auto
    have ch: "finishes cfg ?s5 (?LB # rest) (elems_text 0 js @ output_js ?s5) (seen ?s5 \<union> ?A)"
      by (rule run_elements [OF ok js(1) c1 c2 c3 s5(4) s5(1)])
    have fin5: "?goal ?s5"
    proof (rule finishes_trans [OF ch])
      fix s' :: state
      assume s': "stack s' = ?LB # rest" "output_js s' = elems_text 0 js @ output_js ?s5"
        "seen s' = seen ?s5 \<union> ?A" "\<not> sizeLimitReached s'"
      have ne': "stack s' \<noteq> []" using s'(1) by simp
      have "seen s' = seen s \<union> set (addrs_of cfg (Suc n) (VRef a))"
        unfolding ad s'(3) s5(3) by auto
      then have "?goal (leaf key (TEnc LEFT_BRACKET) index cfg (s'\<lparr>stack := rest\<rparr>))"
        by (intro finishes_here)
           (simp_all add: s'(2,4) s5(2) render_str_def token_str_def getEnclosure_def
              prefix_str_def truthy_index_def
              elems_text_commas js(2) leaf_flag_inf [OF inf(2)])
      then have "?goal (iterateStack cfg s')"
        by (simp only: iterateStack_Enc [OF s'(1)])
      then show "?goal s'" by (rule finishes_step [OF ne'])
    qed
    have ne4: "stack ?s4 \<noteq> []" by simp
    have "?goal (iterateStack cfg ?s4)" using fin5 by (simp only: step4)
    then have "?goal ?s4" by (rule finishes_step [OF ne4])
    then show ?thesis by (simp only: ex)
  next
    case (OObject kvs)
    obtain kjs where kjs: "those (map (\<lambda>(k, x). map_option (Pair k) (json_of cfg n x)) kvs) = Some kjs"
        "j = JObj kjs"
      using j ob OObject by (auto simp add: json_of.simps(8))
    let ?A = "set (concat (map (\<lambda>(k, x). addrs_of cfg n x) kvs))"
    have ad: "addrs_of cfg (Suc n) (VRef a) = a # concat (map (\<lambda>(k, x). addrs_of cfg n x) kvs)"
      using ob OObject by (simp add: addrs_of.simps(4))
    have dis': "a \<notin> ?A" "distinct (concat (map (\<lambda>(k, x). addrs_of cfg n x) kvs))"
      using dis unfolding ad by simp_all
    have disj': "?A \<inter> seen s = {}" using disj unfolding ad by simp
    have c1: "list_all (\<lambda>(k, v). k \<noteq> [] \<and> \<not> list_ex ESCAPE_REGEXP k \<and> plain v) kjs"
      and kne: "kjs \<noteq> []"
      using pl kjs(2) by simp_all
    have kvne: "kvs \<noteq> []" using kjs(1) kne by auto
    let ?s2 = "addSize cfg 2 ?s1"
    let ?LB = "(key, Enc LEFT_BRACE, index, depth)"
    let ?RB = "(None :: string option, Enc RIGHT_BRACE, None :: nat option, depth)"
    let ?fs = "rev (prop_frames depth 0 kvs) @ ?LB # rest"
    let ?s3 = "pushProperties cfg depth 0 kvs (push ?LB ?s2)"
    let ?s4 = "push ?RB ?s3"
    have nf2: "\<not> sizeLimitReached (push ?LB ?s2)"
      using nf by (simp add: flag_PosInf [OF inf(2)])
    have pe: "stack ?s3 = ?fs" "\<not> sizeLimitReached ?s3"
      using pushProperties_all [OF inf(2) nf2, of depth 0 kvs] by simp_all
    have me: "may_expand cfg depth ?s2"
      using nf inf by (simp add: may_expand_def flag_PosInf)
    have ex: "expand cfg key index depth ob ?s1 = ?s4"
      using OObject me kvne by (simp add: expand_def Let_def)
    let ?s5 = "leaf None (TEnc RIGHT_BRACE) None cfg (?s4\<lparr>stack := ?fs\<rparr>)"
    have st4: "stack ?s4 = ?RB # ?fs" using pe(1) by simp
    have step4: "iterateStack cfg ?s4 = ?s5" by (rule iterateStack_Enc [OF st4])
    have s5: "stack ?s5 = ?fs" "output_js ?s5 = ''}'' @ output_js s"
        "seen ?s5 = insert a (seen s)" "\<not> sizeLimitReached ?s5"
      by (simp_all add: render_str_def prefix_str_def truthy_index_def token_str_def
            getEnclosure_def leaf_flag_inf [OF inf(2)] pe(2))
    have c2: "distinct (concat (map (\<lambda>(k, x). addrs_of cfg n x) kvs))" by (rule dis'(2))
    have c3: "?A \<inter> seen ?s5 = {}" using dis'(1) disj' unfolding s5(3) by auto
    have ch: "finishes cfg ?s5 (?LB # rest) (props_text 0 kjs @ output_js ?s5) (seen ?s5 \<union> ?A)"
      by (rule run_properties [OF ok kjs(1) c1 c2 c3 s5(4) s5(1)])
    have fin5: "?goal ?s5"
    proof (rule finishes_trans [OF ch])
      fix s' :: state
      assume s': "stack s' = ?LB # rest" "output_js s' = props_text 0 kjs @ output_js ?s5"
        "seen s' = seen ?s5 \<union> ?A" "\<not> sizeLimitReached s'"
      have ne': "stack s' \<noteq> []" using s'(1) by simp
      have "seen s' = seen s \<union> set (addrs_of cfg (Suc n) (VRef a))"
        unfolding ad s'(3) s5(3) by auto
      then have "?goal (leaf key (TEnc LEFT_BRACE) index cfg (s'\<lparr>stack := rest\<rparr>))"
        by (intro finishes_here)
           (simp_all add: s'(2,4) s5(2) render_str_def token_str_def getEnclosure_def
              prefix_str_def truthy_index_def
              props_text_commas [OF c1] members_text_def kjs(2) leaf_flag_inf [OF inf(2)])
      then have "?goal (iterateStack cfg s')"
        by (simp only: iterateStack_Enc [OF s'(1)])
      then show "?goal s'" by (rule finishes_step [OF ne'])
    qed
    have ne4: "stack ?s4 \<noteq> []" by simp
    have "?goal (iterateStack cfg ?s4)" using fin5 by (simp only: step4)
    then have "?goal ?s4" by (rule finishes_step [OF ne4])
    then show ?thesis by (simp only: ex)
  qed
  then have "?goal (iterateStack cfg s)" by (simp only: step)
  then show ?thesis by (rule finishes_step [OF ne])
qed

lemma value_ok_all:
  assumes "maxDepth cfg = PosInf" "maxSize cfg = PosInf"
  shows "value_ok cfg n"
proof (induction n)
  case 0
  show ?case
    unfolding value_ok_def
  proof (intro allI impI)
    fix v j and s :: state and key index depth rest
    assume "json_of cfg 0 v = Some j" "\<not> sizeLimitReached s"
      "stack s = (key, Val v, index, depth) # rest"
    then show "finishes cfg s rest (prefix_str key index @ stringify j @ output_js s)
                 (seen s \<union> set (addrs_of cfg 0 v))"
      using run_leaf [OF assms(2), of 0 _ j s key index depth rest]
        run_function [of s key _ index depth rest cfg]
      by (cases v) auto
  qed
next
  case (Suc n)
  show ?case
    unfolding value_ok_def
  proof (intro allI impI)
    fix v j and s :: state and key index depth rest
    assume h: "json_of cfg (Suc n) v = Some j" "plain j" "distinct (addrs_of cfg (Suc n) v)"
      "set (addrs_of cfg (Suc n) v) \<inter> seen s = {}" "\<not> sizeLimitReached s"
      "stack s = (key, Val v, index, depth) # rest"
    show "finishes cfg s rest (prefix_str key index @ stringify j @ output_js s)
                 (seen s \<union> set (addrs_of cfg (Suc n) v))"
    proof (cases v)
      case (VPrim p)
      then show ?thesis using h run_leaf [OF assms(2), of "Suc n" p j s key index depth rest]
        by simp
    next
      case (VFun name)
      then show ?thesis using h run_function [of s key name index depth rest cfg] by auto
    next
      case (VRef a)
      then show ?thesis using h run_object [OF assms Suc, of a j s key index depth rest] by simp
    qed
  qed
qed

lemma serialize_tree:
  assumes "maxDepth cfg = PosInf" "maxSize cfg = PosInf"
    and "json_of cfg n v = Some j" and "plain j" and "distinct (addrs_of cfg n v)"
  shows "serialize cfg v = stringify j"
proof -
  have "finishes cfg (initial v) [] (prefix_str None None @ stringify j @ output_js (initial v))
          (seen (initial v) \<union> set (addrs_of cfg n v))"
    by (rule value_okD [OF value_ok_all [OF assms(1,2)] assms(3,4,5)])
       (simp_all add: initial_def)
  then obtain s' where s': "iterate cfg (initial v) = iterate cfg s'" "stack s' = []"
      "output_js s' = prefix_str None None @ stringify j @ output_js (initial v)"
    unfolding finishes_def by blast
  have "iterate cfg s' = s'" using s'(2) by (rule iterate_done)
  then show ?thesis using s'
    by (simp add: serialize_def prefix_str_def truthy_index_def initial_def)
qed

text \<open>
  C2, as stated, fails: the object \<^verbatim>\<open>{a: {}}\<close> is acyclic and denotes a JSON value, but
  its empty object leaves no trace; the result \<^verbatim>\<open>{}\<close> parses to the empty object. For
  the empty object alone the result is the empty string, which is no JSON text.
\<close>

theorem empty_object_breaks_round_trip:
  "json_of (example_config [OObject [(''a'', VRef 1)], OObject []] PosInf PosInf) 2 (VRef 0)
     = Some (JObj [(''a'', JObj [])])
   \<and> distinct (addrs_of (example_config [OObject [(''a'', VRef 1)], OObject []] PosInf PosInf) 2 (VRef 0))
   \<and> serialize (example_config [OObject [(''a'', VRef 1)], OObject []] PosInf PosInf) (VRef 0) = ''{}''
   \<and> json_parse (serialize (example_config [OObject [(''a'', VRef 1)], OObject []] PosInf PosInf) (VRef 0))
     = Some (JObj [])
   \<and> json_parse (serialize (example_config [OObject [(''a'', VRef 1)], OObject []] PosInf PosInf) (VRef 0))
     \<noteq> Some (JObj [(''a'', JObj [])])
   \<and> serialize (example_config [OObject []] PosInf PosInf) (VRef 0) = []
   \<and> json_parse (serialize (example_config [OObject []] PosInf PosInf) (VRef 0)) = None"
  by code_simp

text \<open>
  C2, amended. Let the input be a tree: it denotes a JSON value \<open>j\<close> (so it is acyclic
  and holds no \<^verbatim>\<open>undefined\<close>) and no object is reached twice. Let \<open>j\<close> be plain: no
  empty object, every key non-empty and free of the characters that need an escape, every
  number text a JSON number. Then \<open>serialize\<close> without limits returns the canonical text
  of \<open>j\<close>, and the parser maps it back to \<open>j\<close>.
\<close>

theorem tree_round_trip:
  assumes "maxDepth cfg = PosInf" and "maxSize cfg = PosInf"
    and "json_of cfg n v = Some j" and "plain j" and "distinct (addrs_of cfg n v)"
  shows "serialize cfg v = stringify j \<and> json_parse (serialize cfg v) = Some j"
  using serialize_tree [OF assms] json_parse_stringify [OF plain_numbers_ok [OF assms(4)]]
  by simp

definition sample_heap :: "obj list" where
  "sample_heap =
     [OObject [(''foo'', VRef 1), (''bar'', VRef 2), (''when'', VRef 3)],
      OArray [VPrim (PNum ''1''), VPrim (PNum ''-2.5e+3''), VPrim PNull],
      OArray [VPrim (PStr [CHR ''a'', CHR 0x0A, CHR 0x22, CHR 0x01]), VPrim (PBool True), VFun ''f''],
      ODate ''2022-01-01T00:00:00.000Z'']"

definition sample_json :: json where
  "sample_json =
     JObj [(''foo'', JArr [JNum ''1'', JNum ''-2.5e+3'', JNull]),
           (''bar'', JArr [JStr [CHR ''a'', CHR 0x0A, CHR 0x22, CHR 0x01], JBool True,
                          JStr ''[function f]'']),
           (''when'', JStr ''2022-01-01T00:00:00.000Z'')]"

theorem tree_round_trip_witness:
  "maxDepth (example_config sample_heap PosInf PosInf) = PosInf
   \<and> maxSize (example_config sample_heap PosInf PosInf) = PosInf
   \<and> json_of (example_config sample_heap PosInf PosInf) 2 (VRef 0) = Some sample_json
   \<and> plain sample_json
   \<and> distinct (addrs_of (example_config sample_heap PosInf PosInf) 2 (VRef 0))
   \<and> json_parse (serialize (example_config sample_heap PosInf PosInf) (VRef 0)) = Some sample_json"
proof -
  have a: "maxDepth (example_config sample_heap PosInf PosInf) = PosInf"
    and b: "maxSize (example_config sample_heap PosInf PosInf) = PosInf"
    by (simp_all add: example_config_def)
  have c: "json_of (example_config sample_heap PosInf PosInf) 2 (VRef 0) = Some sample_json"
    by code_simp
  have d: "plain sample_json" by code_simp
  have e: "distinct (addrs_of (example_config sample_heap PosInf PosInf) 2 (VRef 0))"
    by code_simp
  have f: "json_parse (serialize (example_config sample_heap PosInf PosInf) (VRef 0)) = Some sample_json"
    using tree_round_trip [OF a b c d e] by (rule conjunct2)
  show ?thesis by (intro conjI a b c d e f)
qed

end
